theory Spec2Isabelle
  imports Main
begin

section \<open>The data model of buddy.h\<close>

text \<open>
  The allocator of \<^verbatim>\<open>buddy.h\<close> hands out \<open>(offset, size)\<close> pairs of an abstract span;
  it keeps a binary tree of partitions. \<^verbatim>\<open>size_t\<close> values are modelled as natural
  numbers: the only arithmetic of the source is \<open>size / 2\<close> and \<open>offset + size / 2\<close>, and
  the sum never exceeds the size given to \<^verbatim>\<open>buddy_buf_new\<close> in a tree built by the
  allocator (lemma \<open>reachable_node_range\<close> below), so no wrap-around can occur there.
  \<^verbatim>\<open>malloc\<close> is taken to succeed, as the source takes it.
\<close>

datatype BuddyNodeType = NODE_TYPE_FREE | NODE_TYPE_SPLIT | NODE_TYPE_OCCUPIED

text \<open>
  \<^verbatim>\<open>struct BuddyNode\<close>. The children are owned by their parent, so the tree is a value:
  \<open>None\<close> is the \<^verbatim>\<open>NULL\<close> child pointer. The \<^verbatim>\<open>parent\<close> field is not stored: a pointer
  to a node is the path that leads to it from the root (\<open>True\<close> for \<^verbatim>\<open>left\<close>, \<open>False\<close>
  for \<^verbatim>\<open>right\<close>, as the \<^verbatim>\<open>int left\<close> argument of \<^verbatim>\<open>buf_node_new\<close>), and the parent
  pointer of the node at path \<open>p\<close> is \<open>parent p\<close>: \<^verbatim>\<open>NULL\<close> exactly for the root.
\<close>

datatype BuddyNode = BuddyNode
  (node_type: BuddyNodeType)
  (node_offset: nat)
  (node_size: nat)
  (node_left: "BuddyNode option")
  (node_right: "BuddyNode option")

type_synonym node_ptr = "bool list"

record BuddyAllocation =
  alloc_offset :: nat
  alloc_size :: nat
  alloc_node :: node_ptr

record BuddyBuffer =
  root :: BuddyNode

text \<open>
  What the source leaves undefined: reading through \<^verbatim>\<open>NULL\<close>, and reading through a
  pointer to a node that is no longer in the tree (a stale handle).
\<close>

datatype fault = NullDeref | Dangling

definition parent :: "node_ptr \<Rightarrow> node_ptr option" where
  "parent p = (if p = [] then None else Some (butlast p))"

definition child :: "bool \<Rightarrow> BuddyNode \<Rightarrow> BuddyNode option" where
  "child lft n = (if lft then node_left n else node_right n)"

fun set_child :: "bool \<Rightarrow> BuddyNode option \<Rightarrow> BuddyNode \<Rightarrow> BuddyNode" where
  "set_child lft x (BuddyNode t off sz l r) =
     (if lft then BuddyNode t off sz x r else BuddyNode t off sz l x)"

fun set_type :: "BuddyNodeType \<Rightarrow> BuddyNode \<Rightarrow> BuddyNode" where
  "set_type t' (BuddyNode t off sz l r) = BuddyNode t' off sz l r"

text \<open>Dereferencing a pointer: the node at a path, \<open>None\<close> when the path leaves the tree.\<close>

fun node_at :: "BuddyNode \<Rightarrow> node_ptr \<Rightarrow> BuddyNode option" where
  "node_at t [] = Some t"
| "node_at t (d # p) = (case child d t of None \<Rightarrow> None | Some c \<Rightarrow> node_at c p)"

text \<open>
  Writing through a pointer: \<open>put_at t p x\<close> stores \<open>x\<close> in the place that holds the node
  at \<open>p\<close>, which is the child link of its parent (\<open>None\<close> clears the link), or the root
  itself for the empty path.
\<close>

fun put_at :: "BuddyNode \<Rightarrow> node_ptr \<Rightarrow> BuddyNode option \<Rightarrow> BuddyNode" where
  "put_at t [] x = (case x of None \<Rightarrow> t | Some n \<Rightarrow> n)"
| "put_at t [d] x = set_child d x t"
| "put_at t (d # e # p) x =
     (case child d t of None \<Rightarrow> t | Some c \<Rightarrow> set_child d (Some (put_at c (e # p) x)) t)"

section \<open>Construction and teardown\<close>

definition buddy_buf_new :: "nat \<Rightarrow> BuddyBuffer" where
  "buddy_buf_new sz = \<lparr> root = BuddyNode NODE_TYPE_FREE 0 sz None None \<rparr>"

text \<open>
  \<^verbatim>\<open>destroy_buf_node\<close>: both subtrees are destroyed first; then, if the node has a parent,
  the parent's link to it is cleared and the node is freed. The result is what is left in
  the place that held the node: \<open>None\<close> for a node with a parent, and for the root (which
  is never freed here) the root with its \<^verbatim>\<open>type\<close>, \<^verbatim>\<open>offset\<close> and \<^verbatim>\<open>size\<close> as they were.
\<close>

fun destroy_buf_node :: "bool \<Rightarrow> BuddyNode \<Rightarrow> BuddyNode option" where
  "destroy_buf_node has_parent (BuddyNode t off sz l r) =
     (let l' = (case l of None \<Rightarrow> None | Some c \<Rightarrow> destroy_buf_node True c);
          r' = (case r of None \<Rightarrow> None | Some c \<Rightarrow> destroy_buf_node True c)
      in if has_parent then None else Some (BuddyNode t off sz l' r'))"

text \<open>
  The call \<^verbatim>\<open>destroy_buf_node(node)\<close> on the tree that holds the node. The source only
  calls it on a node it has just read, so the first case never applies there.
\<close>

definition destroy_at :: "BuddyNode \<Rightarrow> node_ptr \<Rightarrow> BuddyNode" where
  "destroy_at t p =
     (case node_at t p of
        None \<Rightarrow> t
      | Some n \<Rightarrow> put_at t p (destroy_buf_node (parent p \<noteq> None) n))"

text \<open>\<^verbatim>\<open>buddy_buf_destroy\<close>, up to the release of the buffer itself: the root it leaves.\<close>

definition buddy_buf_destroy :: "BuddyBuffer \<Rightarrow> BuddyNode" where
  "buddy_buf_destroy buf = destroy_at (root buf) []"

section \<open>Allocation\<close>

definition buf_node_new :: "BuddyNode \<Rightarrow> bool \<Rightarrow> BuddyNode" where
  "buf_node_new par lft =
     BuddyNode NODE_TYPE_FREE
       (node_offset par + (if lft then 0 else node_size par div 2))
       (node_size par div 2) None None"

text \<open>
  \<^verbatim>\<open>alloc_buf_node\<close>. The source mutates the node in place and writes \<^verbatim>\<open>*alloc\<close> on
  success; the model returns the node as the call leaves it, and \<open>Some\<close> allocation for
  \<^verbatim>\<open>return 1\<close>, \<open>None\<close> for \<^verbatim>\<open>return 0\<close>. The first argument is the pointer to the node.
  The recursion of the source does not end for every input (a request of size 0 on a free
  node splits forever), so the function is partial: the outer \<open>None\<close> is a call that does
  not return.
\<close>

partial_function (option) alloc_buf_node ::
  "node_ptr \<Rightarrow> BuddyNode \<Rightarrow> nat \<Rightarrow> (BuddyNode \<times> BuddyAllocation option) option" where
  "alloc_buf_node p node sz =
     (case node of BuddyNode t off nsz l r \<Rightarrow>
       (case t of
          NODE_TYPE_FREE \<Rightarrow>
            if nsz div 2 \<ge> sz then
              Option.bind
                (alloc_buf_node (p @ [True])
                   (buf_node_new (BuddyNode NODE_TYPE_SPLIT off nsz l r) True) sz)
                (\<lambda>(c, res). Some (BuddyNode NODE_TYPE_SPLIT off nsz (Some c) r, res))
            else if nsz \<ge> sz then
              Some (BuddyNode NODE_TYPE_OCCUPIED off nsz l r,
                    Some \<lparr> alloc_offset = off, alloc_size = nsz, alloc_node = p \<rparr>)
            else Some (node, None)
        | NODE_TYPE_SPLIT \<Rightarrow>
            if nsz div 2 < sz then Some (node, None)
            else
              (case l of
                 None \<Rightarrow>
                   Option.bind (alloc_buf_node (p @ [True]) (buf_node_new node True) sz)
                     (\<lambda>(c, res). Some (BuddyNode t off nsz (Some c) r, res))
               | Some lc \<Rightarrow>
                   Option.bind (alloc_buf_node (p @ [True]) lc sz)
                     (\<lambda>(lc', res).
                        case res of
                          Some a \<Rightarrow> Some (BuddyNode t off nsz (Some lc') r, Some a)
                        | None \<Rightarrow>
                            (case r of
                               None \<Rightarrow>
                                 Option.bind
                                   (alloc_buf_node (p @ [False])
                                      (buf_node_new (BuddyNode t off nsz (Some lc') r) False) sz)
                                   (\<lambda>(c, res').
                                      Some (BuddyNode t off nsz (Some lc') (Some c), res'))
                             | Some rc \<Rightarrow>
                                 Option.bind (alloc_buf_node (p @ [False]) rc sz)
                                   (\<lambda>(rc', res').
                                      Some (BuddyNode t off nsz (Some lc') (Some rc'), res')))))
        | NODE_TYPE_OCCUPIED \<Rightarrow> Some (node, None)))"

declare alloc_buf_node.simps [code]

definition buddy_buf_alloc ::
  "BuddyBuffer \<Rightarrow> nat \<Rightarrow> (BuddyBuffer \<times> BuddyAllocation option) option" where
  "buddy_buf_alloc buf sz =
     (case alloc_buf_node [] (root buf) sz of
        None \<Rightarrow> None
      | Some (t, res) \<Rightarrow> Some (buf\<lparr> root := t \<rparr>, res))"

section \<open>Deallocation\<close>

definition can_coalesce :: "BuddyNode \<Rightarrow> bool" where
  "can_coalesce node \<longleftrightarrow>
     (case node_left node of None \<Rightarrow> True | Some c \<Rightarrow> node_type c = NODE_TYPE_FREE) \<and>
     (case node_right node of None \<Rightarrow> True | Some c \<Rightarrow> node_type c = NODE_TYPE_FREE)"

text \<open>
  \<^verbatim>\<open>node_update\<close>, on the tree \<open>t\<close> that the pointer lives in. The argument is a pointer
  that may be \<^verbatim>\<open>NULL\<close> (\<open>None\<close>): the source reads \<^verbatim>\<open>node->type\<close> first, which for \<^verbatim>\<open>NULL\<close>
  is a null dereference (\<open>Inl NullDeref\<close>). In the free case \<open>last p\<close> is the test
  \<^verbatim>\<open>parent->left == node\<close>.
\<close>

function node_update :: "BuddyNode \<Rightarrow> node_ptr option \<Rightarrow> fault + BuddyNode" where
  "node_update t None = Inl NullDeref"
| "node_update t (Some p) =
     (case node_at t p of
        None \<Rightarrow> Inl Dangling
      | Some node \<Rightarrow>
          (case node_type node of
             NODE_TYPE_FREE \<Rightarrow>
               (case parent p of
                  None \<Rightarrow> Inr t
                | Some q \<Rightarrow>
                    node_update
                      (if last p then destroy_at t (q @ [True]) else destroy_at t (q @ [False]))
                      (Some q))
           | NODE_TYPE_SPLIT \<Rightarrow>
               if can_coalesce node
               then (case parent p of
                       None \<Rightarrow> node_update (destroy_at t p) None
                     | Some q \<Rightarrow> node_update (destroy_at t p) (Some q))
               else Inr t
           | NODE_TYPE_OCCUPIED \<Rightarrow> Inr t))"
  by pat_completeness auto
termination
  by (relation "measure (\<lambda>(t, po). case po of None \<Rightarrow> 0 | Some p \<Rightarrow> Suc (length p))")
     (auto simp: parent_def split: if_splits)

definition buddy_buf_free :: "BuddyBuffer \<Rightarrow> BuddyAllocation \<Rightarrow> fault + BuddyBuffer" where
  "buddy_buf_free buf alloc =
     (case node_at (root buf) (alloc_node alloc) of
        None \<Rightarrow> Inl Dangling
      | Some node \<Rightarrow>
          (case node_update
                  (put_at (root buf) (alloc_node alloc) (Some (set_type NODE_TYPE_FREE node)))
                  (Some (alloc_node alloc)) of
             Inl e \<Rightarrow> Inl e
           | Inr t \<Rightarrow> Inr (buf\<lparr> root := t \<rparr>)))"

section \<open>Invariants of the partition tree\<close>

text \<open>
  A tree is well formed when only nodes that are split have children, and every child
  covers its half of the parent: the size is half the parent's (rounded down), the left
  child starts where the parent starts, the right child half a parent further.
\<close>

fun wf_node :: "BuddyNode \<Rightarrow> bool" where
  "wf_node (BuddyNode t off sz l r) \<longleftrightarrow>
     (t \<noteq> NODE_TYPE_SPLIT \<longrightarrow> l = None \<and> r = None) \<and>
     (case l of None \<Rightarrow> True
      | Some c \<Rightarrow> node_offset c = off \<and> node_size c = sz div 2 \<and> wf_node c) \<and>
     (case r of None \<Rightarrow> True
      | Some c \<Rightarrow> node_offset c = off + sz div 2 \<and> node_size c = sz div 2 \<and> wf_node c)"

text \<open>
  The handles that are live in a tree: one per occupied node, with the node's offset and
  size and the pointer to it. The first argument is the pointer to the root of the tree.
\<close>

fun live :: "node_ptr \<Rightarrow> BuddyNode \<Rightarrow> BuddyAllocation set" where
  "live p (BuddyNode t off sz l r) =
     (if t = NODE_TYPE_OCCUPIED
      then {\<lparr> alloc_offset = off, alloc_size = sz, alloc_node = p \<rparr>} else {}) \<union>
     (case l of None \<Rightarrow> {} | Some c \<Rightarrow> live (p @ [True]) c) \<union>
     (case r of None \<Rightarrow> {} | Some c \<Rightarrow> live (p @ [False]) c)"

text \<open>
  A run of \<^verbatim>\<open>buddy_buf_alloc\<close> calls with no free in between: the buffer after the
  last call and the allocations of the calls that succeeded, in order. The run is \<open>None\<close>
  when one of the calls does not return.
\<close>

fun alloc_seq :: "BuddyBuffer \<Rightarrow> nat list \<Rightarrow> (BuddyBuffer \<times> BuddyAllocation list) option" where
  "alloc_seq buf [] = Some (buf, [])"
| "alloc_seq buf (sz # szs) =
     (case buddy_buf_alloc buf sz of
        None \<Rightarrow> None
      | Some (buf', res) \<Rightarrow>
          (case alloc_seq buf' szs of
             None \<Rightarrow> None
           | Some (buf'', as) \<Rightarrow> Some (buf'', (case res of None \<Rightarrow> [] | Some a \<Rightarrow> [a]) @ as)))"

text \<open>
  The shape of a tree in which a single allocation went down from a free node: a chain of
  \<open>k\<close> split nodes, each with a left child only, above the node \<open>bottom\<close>.
\<close>

fun spine :: "BuddyNode \<Rightarrow> nat \<Rightarrow> nat \<Rightarrow> nat \<Rightarrow> BuddyNode" where
  "spine bottom off nsz 0 = bottom"
| "spine bottom off nsz (Suc k) =
     BuddyNode NODE_TYPE_SPLIT off nsz (Some (spine bottom off (nsz div 2) k)) None"

text \<open>
  The states an allocator of size \<open>total_size\<close> can be in: the fresh one, and every
  state that an allocation (of at least 1) or the free of a live handle returns to. A free
  that ends in a fault leaves no state behind.
\<close>

inductive reachable :: "nat \<Rightarrow> BuddyBuffer \<Rightarrow> bool" for total_size :: nat where
  reach_new: "0 < total_size \<Longrightarrow> reachable total_size (buddy_buf_new total_size)"
| reach_alloc: "reachable total_size buf \<Longrightarrow> 1 \<le> sz \<Longrightarrow>
     buddy_buf_alloc buf sz = Some (buf', res) \<Longrightarrow> reachable total_size buf'"
| reach_free: "reachable total_size buf \<Longrightarrow> h \<in> live [] (root buf) \<Longrightarrow>
     buddy_buf_free buf h = Inr buf' \<Longrightarrow> reachable total_size buf'"

section \<open>The cases of the allocation descent\<close>

lemma buf_node_new_simps [simp]:
  "buf_node_new (BuddyNode t off sz l r) True = BuddyNode NODE_TYPE_FREE off (sz div 2) None None"
  "buf_node_new (BuddyNode t off sz l r) False =
     BuddyNode NODE_TYPE_FREE (off + sz div 2) (sz div 2) None None"
  by (simp_all add: buf_node_new_def)

lemma alloc_free_split:
  "sz \<le> nsz div 2 \<Longrightarrow>
   alloc_buf_node p (BuddyNode NODE_TYPE_FREE off nsz l r) sz =
     Option.bind
       (alloc_buf_node (p @ [True]) (BuddyNode NODE_TYPE_FREE off (nsz div 2) None None) sz)
       (\<lambda>(c, res). Some (BuddyNode NODE_TYPE_SPLIT off nsz (Some c) r, res))"
  by (subst alloc_buf_node.simps) (simp add: buf_node_new_def)

lemma alloc_free_occupy:
  "\<not> sz \<le> nsz div 2 \<Longrightarrow> sz \<le> nsz \<Longrightarrow>
   alloc_buf_node p (BuddyNode NODE_TYPE_FREE off nsz l r) sz =
     Some (BuddyNode NODE_TYPE_OCCUPIED off nsz l r,
           Some \<lparr> alloc_offset = off, alloc_size = nsz, alloc_node = p \<rparr>)"
  by (subst alloc_buf_node.simps) simp

lemma alloc_free_fail:
  "\<not> sz \<le> nsz \<Longrightarrow>
   alloc_buf_node p (BuddyNode NODE_TYPE_FREE off nsz l r) sz =
     Some (BuddyNode NODE_TYPE_FREE off nsz l r, None)"
proof -
  assume a: "\<not> sz \<le> nsz"
  have "nsz div 2 \<le> nsz" by simp
  with a have "\<not> sz \<le> nsz div 2" by linarith
  with a show ?thesis
    by (subst alloc_buf_node.simps) simp
qed

lemma alloc_split_prune:
  "nsz div 2 < sz \<Longrightarrow>
   alloc_buf_node p (BuddyNode NODE_TYPE_SPLIT off nsz l r) sz =
     Some (BuddyNode NODE_TYPE_SPLIT off nsz l r, None)"
  by (subst alloc_buf_node.simps) simp

lemma alloc_split_left_null:
  "\<not> nsz div 2 < sz \<Longrightarrow>
   alloc_buf_node p (BuddyNode NODE_TYPE_SPLIT off nsz None r) sz =
     Option.bind
       (alloc_buf_node (p @ [True]) (BuddyNode NODE_TYPE_FREE off (nsz div 2) None None) sz)
       (\<lambda>(c, res). Some (BuddyNode NODE_TYPE_SPLIT off nsz (Some c) r, res))"
  by (subst alloc_buf_node.simps) (simp add: buf_node_new_def)

lemma alloc_split_left:
  "\<not> nsz div 2 < sz \<Longrightarrow>
   alloc_buf_node p (BuddyNode NODE_TYPE_SPLIT off nsz (Some lc) r) sz =
     Option.bind (alloc_buf_node (p @ [True]) lc sz)
       (\<lambda>(lc', res).
          case res of
            Some a \<Rightarrow> Some (BuddyNode NODE_TYPE_SPLIT off nsz (Some lc') r, Some a)
          | None \<Rightarrow>
              (case r of
                 None \<Rightarrow>
                   Option.bind
                     (alloc_buf_node (p @ [False])
                        (buf_node_new (BuddyNode NODE_TYPE_SPLIT off nsz (Some lc') r) False) sz)
                     (\<lambda>(c, res'). Some (BuddyNode NODE_TYPE_SPLIT off nsz (Some lc') (Some c), res'))
               | Some rc \<Rightarrow>
                   Option.bind (alloc_buf_node (p @ [False]) rc sz)
                     (\<lambda>(rc', res').
                        Some (BuddyNode NODE_TYPE_SPLIT off nsz (Some lc') (Some rc'), res'))))"
  by (rule trans [OF alloc_buf_node.simps]) simp

lemma alloc_occupied:
  "alloc_buf_node p (BuddyNode NODE_TYPE_OCCUPIED off nsz l r) sz =
     Some (BuddyNode NODE_TYPE_OCCUPIED off nsz l r, None)"
  by (subst alloc_buf_node.simps) simp

lemmas alloc_rules = alloc_free_split alloc_free_occupy alloc_free_fail alloc_split_prune
  alloc_split_left_null alloc_split_left alloc_occupied

lemma alloc_fresh:
  "1 \<le> sz \<Longrightarrow> sz \<le> nsz \<Longrightarrow>
   \<exists>n' a. alloc_buf_node p (BuddyNode NODE_TYPE_FREE off nsz None None) sz = Some (n', Some a)
     \<and> wf_node n' \<and> node_offset n' = off \<and> node_size n' = nsz
     \<and> node_type n' \<noteq> NODE_TYPE_FREE \<and> live p n' = {a}
     \<and> alloc_offset a = off \<and> sz \<le> alloc_size a \<and> alloc_size a div 2 < sz
     \<and> (\<exists>k. alloc_size a = nsz div 2 ^ k)"
proof (induction nsz arbitrary: p rule: less_induct)
  case (less nsz)
  show ?case
  proof (cases "sz \<le> nsz div 2")
    case True
    with less.prems have "nsz div 2 < nsz" by simp
    from less.IH [OF this less.prems(1) True, of "p @ [True]"]
    obtain c a k where c:
      "alloc_buf_node (p @ [True]) (BuddyNode NODE_TYPE_FREE off (nsz div 2) None None) sz
         = Some (c, Some a)"
      "wf_node c" "node_offset c = off" "node_size c = nsz div 2"
      "live (p @ [True]) c = {a}" "alloc_offset a = off" "sz \<le> alloc_size a"
      "alloc_size a div 2 < sz" "alloc_size a = nsz div 2 div 2 ^ k"
      by blast
    have "alloc_size a = nsz div 2 ^ Suc k"
      using c(9) by (simp add: div_mult2_eq)
    then have ex: "\<exists>k. alloc_size a = nsz div 2 ^ k" by (rule exI)
    have res: "alloc_buf_node p (BuddyNode NODE_TYPE_FREE off nsz None None) sz
        = Some (BuddyNode NODE_TYPE_SPLIT off nsz (Some c) None, Some a)"
      by (simp add: alloc_free_split True c(1))
    show ?thesis unfolding res using c ex by simp
  next
    case False
    have "nsz = nsz div 2 ^ 0" by simp
    then have ex: "\<exists>k. nsz = nsz div 2 ^ k" by (rule exI)
    have res: "alloc_buf_node p (BuddyNode NODE_TYPE_FREE off nsz None None) sz
        = Some (BuddyNode NODE_TYPE_OCCUPIED off nsz None None,
                Some \<lparr> alloc_offset = off, alloc_size = nsz, alloc_node = p \<rparr>)"
      using False less.prems by (simp add: alloc_free_occupy)
    show ?thesis unfolding res using False less.prems ex by simp
  qed
qed

text \<open>
  A request of size 0 on a free node does not return: every free node is split again,
  since \<open>0 \<le> size / 2\<close> always holds.
\<close>

lemma alloc_zero_free_no_result:
  assumes "alloc_buf_node p node sz = Some res"
  shows "\<not> (sz = 0 \<and> node_type node = NODE_TYPE_FREE)"
proof (rule alloc_buf_node.raw_induct
    [where P = "\<lambda>p node sz res. \<not> (sz = 0 \<and> node_type node = NODE_TYPE_FREE)", OF _ assms])
  fix f :: "node_ptr \<Rightarrow> BuddyNode \<Rightarrow> nat \<Rightarrow> (BuddyNode \<times> BuddyAllocation option) option"
    and p node sz and res :: "BuddyNode \<times> BuddyAllocation option"
  assume IH: "\<And>p node sz res. f p node sz = Some res \<Longrightarrow>
      \<not> (sz = 0 \<and> node_type node = NODE_TYPE_FREE)"
  assume F: "(case node of
     BuddyNode t off nsz l r \<Rightarrow>
       (case t of
          NODE_TYPE_FREE \<Rightarrow>
            if nsz div 2 \<ge> sz then
              Option.bind
                (f (p @ [True]) (buf_node_new (BuddyNode NODE_TYPE_SPLIT off nsz l r) True) sz)
                (\<lambda>(c, res). Some (BuddyNode NODE_TYPE_SPLIT off nsz (Some c) r, res))
            else if nsz \<ge> sz then
              Some (BuddyNode NODE_TYPE_OCCUPIED off nsz l r,
                    Some \<lparr> alloc_offset = off, alloc_size = nsz, alloc_node = p \<rparr>)
            else Some (node, None)
        | NODE_TYPE_SPLIT \<Rightarrow>
            if nsz div 2 < sz then Some (node, None)
            else
              (case l of
                 None \<Rightarrow>
                   Option.bind (f (p @ [True]) (buf_node_new node True) sz)
                     (\<lambda>(c, res). Some (BuddyNode t off nsz (Some c) r, res))
               | Some lc \<Rightarrow>
                   Option.bind (f (p @ [True]) lc sz)
                     (\<lambda>(lc', res).
                        case res of
                          Some a \<Rightarrow> Some (BuddyNode t off nsz (Some lc') r, Some a)
                        | None \<Rightarrow>
                            (case r of
                               None \<Rightarrow>
                                 Option.bind
                                   (f (p @ [False])
                                      (buf_node_new (BuddyNode t off nsz (Some lc') r) False) sz)
                                   (\<lambda>(c, res').
                                      Some (BuddyNode t off nsz (Some lc') (Some c), res'))
                             | Some rc \<Rightarrow>
                                 Option.bind (f (p @ [False]) rc sz)
                                   (\<lambda>(rc', res').
                                      Some (BuddyNode t off nsz (Some lc') (Some rc'), res')))))
        | NODE_TYPE_OCCUPIED \<Rightarrow> Some (node, None))) = Some res"
  show "\<not> (sz = 0 \<and> node_type node = NODE_TYPE_FREE)"
  proof
    assume z: "sz = 0 \<and> node_type node = NODE_TYPE_FREE"
    then obtain off nsz l r where n: "node = BuddyNode NODE_TYPE_FREE off nsz l r"
      by (cases node) auto
    from F z n obtain res' where
      "f (p @ [True]) (BuddyNode NODE_TYPE_FREE off (nsz div 2) None None) 0 = Some res'"
      by (auto simp: bind_eq_Some_conv)
    from IH [OF this] show False by simp
  qed
qed

lemma alloc_zero_free_diverges:
  "alloc_buf_node p (BuddyNode NODE_TYPE_FREE off nsz l r) 0 = None"
  using alloc_zero_free_no_result [of p "BuddyNode NODE_TYPE_FREE off nsz l r" 0]
  by (cases "alloc_buf_node p (BuddyNode NODE_TYPE_FREE off nsz l r) 0") auto

text \<open>
  For a request of at least 1 the descent returns, on every tree, and a failed call
  leaves the node as it was.
\<close>

lemma alloc_returns:
  "1 \<le> sz \<Longrightarrow> \<exists>n' res. alloc_buf_node p n sz = Some (n', res) \<and> (res = None \<longrightarrow> n' = n)"
proof (induction n arbitrary: p)
  case (BuddyNode t off nsz l r)
  have fresh: "\<And>q o'. sz \<le> nsz div 2 \<Longrightarrow>
      \<exists>c a. alloc_buf_node q (BuddyNode NODE_TYPE_FREE o' (nsz div 2) None None) sz = Some (c, Some a)"
    using alloc_fresh [OF BuddyNode.prems] by blast
  show ?case
  proof (cases t)
    case NODE_TYPE_FREE
    show ?thesis
    proof (cases "sz \<le> nsz div 2")
      case True
      from fresh [OF True] obtain c a where
        "alloc_buf_node (p @ [True]) (BuddyNode NODE_TYPE_FREE off (nsz div 2) None None) sz
           = Some (c, Some a)" by blast
      with True NODE_TYPE_FREE show ?thesis by (simp add: alloc_free_split)
    next
      case False
      with NODE_TYPE_FREE show ?thesis
        by (cases "sz \<le> nsz") (simp_all add: alloc_free_occupy alloc_free_fail)
    qed
  next
    case NODE_TYPE_OCCUPIED
    then show ?thesis by (simp add: alloc_occupied)
  next
    case NODE_TYPE_SPLIT
    show ?thesis
    proof (cases "nsz div 2 < sz")
      case True
      with NODE_TYPE_SPLIT show ?thesis by (simp add: alloc_split_prune)
    next
      case False
      then have le: "sz \<le> nsz div 2" by simp
      show ?thesis
      proof (cases l)
        case None
        from fresh [OF le] obtain c a where
          "alloc_buf_node (p @ [True]) (BuddyNode NODE_TYPE_FREE off (nsz div 2) None None) sz
             = Some (c, Some a)" by blast
        with None False NODE_TYPE_SPLIT show ?thesis by (simp add: alloc_split_left_null)
      next
        case (Some lc)
        from BuddyNode.IH(1) [of lc "p @ [True]"] Some BuddyNode.prems
        obtain lc' res where lres:
          "alloc_buf_node (p @ [True]) lc sz = Some (lc', res)" "res = None \<longrightarrow> lc' = lc"
          by auto
        show ?thesis
        proof (cases res)
          case (Some a)
          with lres \<open>l = Some lc\<close> False NODE_TYPE_SPLIT show ?thesis
            by (simp add: alloc_split_left)
        next
          case None
          with lres have [simp]: "lc' = lc" by simp
          show ?thesis
          proof (cases r)
            case None
            from fresh [OF le] obtain c a where
              "alloc_buf_node (p @ [False])
                 (BuddyNode NODE_TYPE_FREE (off + nsz div 2) (nsz div 2) None None) sz
                 = Some (c, Some a)" by blast
            with None \<open>res = None\<close> lres \<open>l = Some lc\<close> False NODE_TYPE_SPLIT show ?thesis
              by (simp add: alloc_split_left)
          next
            case (Some rc)
            from BuddyNode.IH(2) [of rc "p @ [False]"] Some BuddyNode.prems
            obtain rc' res' where
              "alloc_buf_node (p @ [False]) rc sz = Some (rc', res')" "res' = None \<longrightarrow> rc' = rc"
              by auto
            with Some \<open>res = None\<close> lres \<open>l = Some lc\<close> False NODE_TYPE_SPLIT show ?thesis
              by (auto simp add: alloc_split_left)
          qed
        qed
      qed
    qed
  qed
qed

text \<open>
  On a well-formed tree the descent keeps the tree well formed and the node's range, and a
  successful call adds exactly the returned handle to the live handles.
\<close>

lemma live_prefix: "h \<in> live p n \<Longrightarrow> \<exists>q. alloc_node h = p @ q"
proof (induction n arbitrary: p)
  case (BuddyNode t off nsz l r)
  then show ?case
    by (fastforce split: if_splits option.splits)
qed

lemma live_left_right_disjoint: "h \<in> live (p @ [True]) x \<Longrightarrow> h \<notin> live (p @ [False]) y"
proof
  assume "h \<in> live (p @ [True]) x" "h \<in> live (p @ [False]) y"
  then obtain q q' where "alloc_node h = (p @ [True]) @ q" "alloc_node h = (p @ [False]) @ q'"
    using live_prefix by blast
  then show False by simp
qed

lemma alloc_wf:
  "1 \<le> sz \<Longrightarrow> wf_node n \<Longrightarrow>
   \<exists>n' res. alloc_buf_node p n sz = Some (n', res) \<and> wf_node n'
     \<and> node_offset n' = node_offset n \<and> node_size n' = node_size n
     \<and> (case res of None \<Rightarrow> n' = n
         | Some a \<Rightarrow> live p n' = insert a (live p n) \<and> a \<notin> live p n \<and> sz \<le> alloc_size a)"
proof (induction n arbitrary: p)
  case (BuddyNode t off nsz l r)
  note wf = \<open>wf_node (BuddyNode t off nsz l r)\<close>
  have fresh: "\<And>q o'. sz \<le> nsz div 2 \<Longrightarrow>
      \<exists>c a. alloc_buf_node q (BuddyNode NODE_TYPE_FREE o' (nsz div 2) None None) sz = Some (c, Some a)
        \<and> wf_node c \<and> node_offset c = o' \<and> node_size c = nsz div 2 \<and> live q c = {a}
        \<and> sz \<le> alloc_size a"
    using alloc_fresh [OF BuddyNode.prems(1)] by blast
  show ?case
  proof (cases t)
    case NODE_TYPE_FREE
    with wf have leaf: "l = None" "r = None" by simp_all
    show ?thesis
    proof (cases "sz \<le> nsz div 2")
      case True
      from fresh [OF True, of "p @ [True]" off] obtain c a where
        "alloc_buf_node (p @ [True]) (BuddyNode NODE_TYPE_FREE off (nsz div 2) None None) sz
           = Some (c, Some a)"
        "wf_node c" "node_offset c = off" "node_size c = nsz div 2" "live (p @ [True]) c = {a}"
        "sz \<le> alloc_size a" by blast
      with True NODE_TYPE_FREE leaf show ?thesis by (simp add: alloc_free_split)
    next
      case False
      with NODE_TYPE_FREE leaf show ?thesis
        by (cases "sz \<le> nsz") (simp_all add: alloc_free_occupy alloc_free_fail)
    qed
  next
    case NODE_TYPE_OCCUPIED
    then show ?thesis using wf by (simp add: alloc_occupied)
  next
    case NODE_TYPE_SPLIT
    show ?thesis
    proof (cases "nsz div 2 < sz")
      case True
      with NODE_TYPE_SPLIT wf show ?thesis by (simp add: alloc_split_prune)
    next
      case False
      then have le: "sz \<le> nsz div 2" by simp
      show ?thesis
      proof (cases l)
        case None
        from fresh [OF le, of "p @ [True]" off] obtain c a where c:
          "alloc_buf_node (p @ [True]) (BuddyNode NODE_TYPE_FREE off (nsz div 2) None None) sz
             = Some (c, Some a)"
          "wf_node c" "node_offset c = off" "node_size c = nsz div 2" "live (p @ [True]) c = {a}"
          "sz \<le> alloc_size a" by blast
        have "a \<in> live (p @ [True]) c" using c(5) by simp
        then have "\<And>y. a \<notin> live (p @ [False]) y" by (rule live_left_right_disjoint)
        with c None False NODE_TYPE_SPLIT wf show ?thesis
          by (simp add: alloc_split_left_null split: option.splits)
      next
        case (Some lc)
        with wf have wlc: "wf_node lc" by simp
        from BuddyNode.IH(1) [of lc "p @ [True]"] Some BuddyNode.prems(1) wlc
        obtain lc' res where lres:
          "alloc_buf_node (p @ [True]) lc sz = Some (lc', res)" "wf_node lc'"
          "node_offset lc' = node_offset lc" "node_size lc' = node_size lc"
          "case res of None \<Rightarrow> lc' = lc
           | Some a \<Rightarrow> live (p @ [True]) lc' = insert a (live (p @ [True]) lc)
               \<and> a \<notin> live (p @ [True]) lc \<and> sz \<le> alloc_size a"
          by auto
        show ?thesis
        proof (cases res)
          case (Some a)
          with lres have "a \<in> live (p @ [True]) lc'" by simp
          then have "\<And>y. a \<notin> live (p @ [False]) y" by (rule live_left_right_disjoint)
          with Some lres \<open>l = Some lc\<close> False NODE_TYPE_SPLIT wf show ?thesis
            by (auto simp add: alloc_split_left split: option.splits)
        next
          case None
          with lres have [simp]: "lc' = lc" by simp
          show ?thesis
          proof (cases r)
            case None
            from fresh [OF le, of "p @ [False]" "off + nsz div 2"] obtain c a where c:
              "alloc_buf_node (p @ [False])
                 (BuddyNode NODE_TYPE_FREE (off + nsz div 2) (nsz div 2) None None) sz
                 = Some (c, Some a)"
              "wf_node c" "node_offset c = off + nsz div 2" "node_size c = nsz div 2"
              "live (p @ [False]) c = {a}" "sz \<le> alloc_size a" by blast
            have "a \<in> live (p @ [False]) c" using c(5) by simp
            then have "a \<notin> live (p @ [True]) lc" using live_left_right_disjoint by blast
            with c None \<open>res = None\<close> lres \<open>l = Some lc\<close> False NODE_TYPE_SPLIT wf show ?thesis
              by (simp add: alloc_split_left)
          next
            case (Some rc)
            with wf have wrc: "wf_node rc" by simp
            from BuddyNode.IH(2) [of rc "p @ [False]"] Some BuddyNode.prems(1) wrc
            obtain rc' res' where rres:
              "alloc_buf_node (p @ [False]) rc sz = Some (rc', res')" "wf_node rc'"
              "node_offset rc' = node_offset rc" "node_size rc' = node_size rc"
              "case res' of None \<Rightarrow> rc' = rc
               | Some a \<Rightarrow> live (p @ [False]) rc' = insert a (live (p @ [False]) rc)
                   \<and> a \<notin> live (p @ [False]) rc \<and> sz \<le> alloc_size a"
              by auto
            show ?thesis
            proof (cases res')
              case None
              with rres Some \<open>res = None\<close> lres \<open>l = Some lc\<close> False NODE_TYPE_SPLIT wf
              show ?thesis by (simp add: alloc_split_left)
            next
              case (Some a)
              with rres have "a \<in> live (p @ [False]) rc'" by simp
              then have "a \<notin> live (p @ [True]) lc" using live_left_right_disjoint by blast
              with Some rres \<open>r = Some rc\<close> \<open>res = None\<close> lres \<open>l = Some lc\<close> False
                NODE_TYPE_SPLIT wf
              show ?thesis by (auto simp add: alloc_split_left)
            qed
          qed
        qed
      qed
    qed
  qed
qed

section \<open>Ranges of the live handles\<close>

lemma live_range:
  "wf_node n \<Longrightarrow> h \<in> live p n \<Longrightarrow>
   node_offset n \<le> alloc_offset h \<and> alloc_offset h + alloc_size h \<le> node_offset n + node_size n"
proof (induction n arbitrary: p)
  case (BuddyNode t off nsz l r)
  have half: "nsz div 2 + nsz div 2 \<le> nsz" by simp
  from BuddyNode.prems(2) consider
      (self) "t = NODE_TYPE_OCCUPIED" "h = \<lparr> alloc_offset = off, alloc_size = nsz, alloc_node = p \<rparr>"
    | (left) c where "l = Some c" "h \<in> live (p @ [True]) c"
    | (right) c where "r = Some c" "h \<in> live (p @ [False]) c"
    by (auto split: if_splits option.splits)
  then show ?case
  proof cases
    case self
    then show ?thesis by simp
  next
    case left
    with BuddyNode.prems(1) have "wf_node c" "node_offset c = off" "node_size c = nsz div 2"
      by simp_all
    with BuddyNode.IH(1) [of c "p @ [True]"] left half show ?thesis by fastforce
  next
    case right
    with BuddyNode.prems(1) have "wf_node c" "node_offset c = off + nsz div 2"
      "node_size c = nsz div 2"
      by simp_all
    with BuddyNode.IH(2) [of c "p @ [False]"] right half show ?thesis by fastforce
  qed
qed

lemma live_disjoint:
  "wf_node n \<Longrightarrow> a \<in> live p n \<Longrightarrow> b \<in> live p n \<Longrightarrow> a \<noteq> b \<Longrightarrow>
   alloc_offset a + alloc_size a \<le> alloc_offset b \<or> alloc_offset b + alloc_size b \<le> alloc_offset a"
proof (induction n arbitrary: p)
  case (BuddyNode t off nsz l r)
  show ?case
  proof (cases "t = NODE_TYPE_SPLIT")
    case False
    with BuddyNode.prems show ?thesis by (auto split: if_splits)
  next
    case True
    from BuddyNode.prems(2) True consider
        (left) c where "l = Some c" "a \<in> live (p @ [True]) c"
      | (right) c where "r = Some c" "a \<in> live (p @ [False]) c"
      by (auto split: option.splits)
    then show ?thesis
    proof cases
      case left
      with BuddyNode.prems(1) have wc: "wf_node c" "node_offset c = off" "node_size c = nsz div 2"
        by simp_all
      from BuddyNode.prems(3) True consider
          (left') "b \<in> live (p @ [True]) c"
        | (right') d where "r = Some d" "b \<in> live (p @ [False]) d"
        using left(1) by (auto split: option.splits)
      then show ?thesis
      proof cases
        case left'
        with BuddyNode.IH(1) [of c "p @ [True]"] left wc BuddyNode.prems(4) show ?thesis
          by simp
      next
        case right'
        with BuddyNode.prems(1) have wd: "wf_node d" "node_offset d = off + nsz div 2"
          by simp_all
        from live_range [OF wc(1) left(2)] live_range [OF wd(1) right'(2)] wc wd
        show ?thesis by simp
      qed
    next
      case right
      with BuddyNode.prems(1) have wc: "wf_node c" "node_offset c = off + nsz div 2"
        "node_size c = nsz div 2"
        by simp_all
      from BuddyNode.prems(3) True consider
          (left') d where "l = Some d" "b \<in> live (p @ [True]) d"
        | (right') "b \<in> live (p @ [False]) c"
        using right(1) by (auto split: option.splits)
      then show ?thesis
      proof cases
        case right'
        with BuddyNode.IH(2) [of c "p @ [False]"] right wc BuddyNode.prems(4) show ?thesis
          by simp
      next
        case left'
        with BuddyNode.prems(1) have wd: "wf_node d" "node_offset d = off"
          "node_size d = nsz div 2"
          by simp_all
        from live_range [OF wc(1) right(2)] live_range [OF wd(1) left'(2)] wc wd
        show ?thesis by simp
      qed
    qed
  qed
qed

lemma alloc_seq_inv:
  "wf_node (root buf) \<Longrightarrow> \<forall>s\<in>set szs. 1 \<le> s \<Longrightarrow>
   \<exists>buf' as. alloc_seq buf szs = Some (buf', as) \<and> wf_node (root buf')
     \<and> node_offset (root buf') = node_offset (root buf)
     \<and> node_size (root buf') = node_size (root buf)
     \<and> distinct as \<and> set as \<inter> live [] (root buf) = {}
     \<and> live [] (root buf') = live [] (root buf) \<union> set as
     \<and> (\<forall>a\<in>set as. 1 \<le> alloc_size a)"
proof (induction szs arbitrary: buf)
  case Nil
  then show ?case by simp
next
  case (Cons sz szs)
  from Cons.prems have sz: "1 \<le> sz" by simp
  from alloc_wf [OF sz Cons.prems(1), of "[]"] obtain t res where t:
    "alloc_buf_node [] (root buf) sz = Some (t, res)" "wf_node t"
    "node_offset t = node_offset (root buf)" "node_size t = node_size (root buf)"
    "case res of None \<Rightarrow> t = root buf
     | Some a \<Rightarrow> live [] t = insert a (live [] (root buf)) \<and> a \<notin> live [] (root buf)
         \<and> sz \<le> alloc_size a"
    by (auto split: option.splits)
  define buf1 where "buf1 = buf\<lparr> root := t \<rparr>"
  have b1: "buddy_buf_alloc buf sz = Some (buf1, res)"
    by (simp add: buddy_buf_alloc_def t(1) buf1_def)
  have r1: "root buf1 = t" by (simp add: buf1_def)
  from Cons.IH [of buf1] Cons.prems(2) t(2) r1
  obtain buf' as where as:
    "alloc_seq buf1 szs = Some (buf', as)" "wf_node (root buf')"
    "node_offset (root buf') = node_offset t" "node_size (root buf') = node_size t"
    "distinct as" "set as \<inter> live [] t = {}" "live [] (root buf') = live [] t \<union> set as"
    "\<forall>a\<in>set as. 1 \<le> alloc_size a"
    by auto
  show ?case
  proof (cases res)
    case None
    with t(5) as b1 t(3,4) show ?thesis by simp
  next
    case (Some a)
    with t(5) sz have "live [] t = insert a (live [] (root buf))" "a \<notin> live [] (root buf)"
      "1 \<le> alloc_size a"
      by simp_all
    with as b1 t(3,4) Some show ?thesis by auto
  qed
qed


section \<open>Reading and writing through pointers\<close>

lemma child_simps [simp]:
  "child True (BuddyNode t off sz l r) = l"
  "child False (BuddyNode t off sz l r) = r"
  by (simp_all add: child_def)

lemma set_child_sel [simp]:
  "node_type (set_child d x n) = node_type n"
  "node_offset (set_child d x n) = node_offset n"
  "node_size (set_child d x n) = node_size n"
  "child d' (set_child d x n) = (if d' = d then x else child d' n)"
  by (cases n; cases d; cases d'; simp)+

lemma set_type_sel [simp]:
  "node_type (set_type ty n) = ty"
  "node_offset (set_type ty n) = node_offset n"
  "node_size (set_type ty n) = node_size n"
  "node_left (set_type ty n) = node_left n"
  "node_right (set_type ty n) = node_right n"
  by (cases n; simp)+

lemma put_at_Cons:
  "p \<noteq> [] \<Longrightarrow>
   put_at t (d # p) x =
     (case child d t of None \<Rightarrow> t | Some c \<Rightarrow> set_child d (Some (put_at c p x)) t)"
  by (cases p) (simp_all split: option.splits)

lemma wf_node_child:
  "wf_node n \<Longrightarrow> child d n = Some c \<Longrightarrow>
   wf_node c \<and> node_type n = NODE_TYPE_SPLIT \<and> node_size c = node_size n div 2
     \<and> node_offset c = node_offset n + (if d then 0 else node_size n div 2)"
  by (cases n; cases d) auto

lemma wf_node_set_child:
  "wf_node n \<Longrightarrow>
   (case x of None \<Rightarrow> True
    | Some y \<Rightarrow> wf_node y \<and> node_type n = NODE_TYPE_SPLIT \<and> node_size y = node_size n div 2
        \<and> node_offset y = node_offset n + (if d then 0 else node_size n div 2)) \<Longrightarrow>
   wf_node (set_child d x n)"
  by (cases n; cases d) (auto split: option.splits)

lemma node_at_snoc:
  "node_at t (q @ [d]) = (case node_at t q of None \<Rightarrow> None | Some n \<Rightarrow> child d n)"
  by (induction q arbitrary: t) (auto split: option.splits)

lemma wf_node_at:
  "wf_node t \<Longrightarrow> node_at t p = Some n \<Longrightarrow>
   wf_node n \<and> node_size n = node_size t div 2 ^ length p"
proof (induction p arbitrary: t)
  case Nil
  then show ?case by simp
next
  case (Cons d p)
  then obtain c where c: "child d t = Some c" "node_at c p = Some n"
    by (auto split: option.splits)
  from wf_node_child [OF Cons.prems(1) c(1)] have "wf_node c" "node_size c = node_size t div 2"
    by simp_all
  with Cons.IH [OF _ c(2)] show ?case by (simp add: div_mult2_eq)
qed

lemma put_at_wf:
  "wf_node t \<Longrightarrow> node_at t p = Some m \<Longrightarrow>
   (case x of None \<Rightarrow> True
    | Some y \<Rightarrow> wf_node y \<and> node_offset y = node_offset m \<and> node_size y = node_size m) \<Longrightarrow>
   wf_node (put_at t p x) \<and> node_offset (put_at t p x) = node_offset t
     \<and> node_size (put_at t p x) = node_size t"
proof (induction t p x rule: put_at.induct)
  case (1 t x)
  then show ?case by (auto split: option.splits)
next
  case (2 t d x)
  then have c: "child d t = Some m" by (auto split: option.splits)
  from wf_node_child [OF 2(1) c] 2(3) have
    "case x of None \<Rightarrow> True
     | Some y \<Rightarrow> wf_node y \<and> node_type t = NODE_TYPE_SPLIT \<and> node_size y = node_size t div 2
        \<and> node_offset y = node_offset t + (if d then 0 else node_size t div 2)"
    by (auto split: option.splits)
  from wf_node_set_child [OF 2(1) this] show ?case by simp
next
  case (3 t d e p x)
  from 3(3) obtain c where c: "child d t = Some c" "node_at c (e # p) = Some m"
    by (auto split: option.splits)
  from wf_node_child [OF 3(2) c(1)] have wc: "wf_node c" "node_type t = NODE_TYPE_SPLIT"
    "node_size c = node_size t div 2"
    "node_offset c = node_offset t + (if d then 0 else node_size t div 2)"
    by simp_all
  from 3(1) [OF c(1) wc(1) c(2) 3(4)] wc have
    "case Some (put_at c (e # p) x) of None \<Rightarrow> True
     | Some y \<Rightarrow> wf_node y \<and> node_type t = NODE_TYPE_SPLIT \<and> node_size y = node_size t div 2
        \<and> node_offset y = node_offset t + (if d then 0 else node_size t div 2)"
    by simp
  from wf_node_set_child [OF 3(2) this] c(1) show ?case by simp
qed

lemma node_at_put_at:
  "node_at t p = Some m \<Longrightarrow> p \<noteq> [] \<or> x \<noteq> None \<Longrightarrow> node_at (put_at t p x) p = x"
proof (induction t p x rule: put_at.induct)
  case (1 t x)
  then show ?case by auto
next
  case (2 t d x)
  then show ?case by (simp split: option.splits)
next
  case (3 t d e p x)
  then show ?case by (auto split: option.splits)
qed

lemma node_at_put_at_parent:
  "node_at t (q @ [d]) = Some m \<Longrightarrow>
   node_at (put_at t (q @ [d]) x) q = map_option (set_child d x) (node_at t q)"
proof (induction q arbitrary: t)
  case Nil
  then show ?case by simp
next
  case (Cons e q)
  then obtain c where c: "child e t = Some c" "node_at c (q @ [d]) = Some m"
    by (auto split: option.splits)
  from Cons.IH [OF c(2)] c(1) show ?case
    by (simp add: put_at_Cons)
qed

section \<open>Live handles under pointer writes\<close>

lemma live_below:
  "h \<in> live (r @ d # q) m \<Longrightarrow>
   alloc_node h \<noteq> r \<and> (\<forall>y. h \<notin> live (r @ [\<not> d]) y)"
proof -
  assume h: "h \<in> live (r @ d # q) m"
  then obtain q' where q': "alloc_node h = (r @ d # q) @ q'" using live_prefix by blast
  have "h \<notin> live (r @ [\<not> d]) y" for y
  proof
    assume "h \<in> live (r @ [\<not> d]) y"
    then obtain q'' where "alloc_node h = (r @ [\<not> d]) @ q''" using live_prefix by blast
    with q' show False by simp
  qed
  with q' show ?thesis by simp
qed

lemma live_Node:
  "live r n =
     (if node_type n = NODE_TYPE_OCCUPIED
      then {\<lparr> alloc_offset = node_offset n, alloc_size = node_size n, alloc_node = r \<rparr>} else {}) \<union>
     (case child True n of None \<Rightarrow> {} | Some c \<Rightarrow> live (r @ [True]) c) \<union>
     (case child False n of None \<Rightarrow> {} | Some c \<Rightarrow> live (r @ [False]) c)"
  by (cases n) simp

lemma live_set_child:
  "child d t = Some c \<Longrightarrow>
   live r (set_child d x t) =
     (live r t - live (r @ [d]) c) \<union> (case x of None \<Rightarrow> {} | Some y \<Rightarrow> live (r @ [d]) y)"
proof -
  assume c: "child d t = Some c"
  have self: "\<lparr> alloc_offset = a, alloc_size = b, alloc_node = r \<rparr> \<notin> live (r @ [d]) c" for a b
    using live_below [of _ r d "[]" c] by force
  have sib: "h \<in> live (r @ [d]) c \<Longrightarrow> h \<notin> live (r @ [\<not> d]) y" for h y
    using live_below [of h r d "[]" c] by simp
  show ?thesis
  proof (cases d)
    case True
    with c self sib [unfolded True] show ?thesis
      by (cases t) (auto split: option.splits if_splits)
  next
    case False
    with c self sib [unfolded False] show ?thesis
      by (cases t) (auto split: option.splits if_splits)
  qed
qed

lemma live_child_subset:
  "child d t = Some c \<Longrightarrow> live (r @ [d]) c \<subseteq> live r t"
  by (cases t; cases d) auto

lemma live_node_at_subset:
  "node_at t p = Some m \<Longrightarrow> live (r @ p) m \<subseteq> live r t"
proof (induction p arbitrary: t r)
  case Nil
  then show ?case by simp
next
  case (Cons d p)
  then obtain c where c: "child d t = Some c" "node_at c p = Some m"
    by (auto split: option.splits)
  from Cons.IH [OF c(2), of "r @ [d]"] live_child_subset [OF c(1), of r] show ?case by simp
qed

lemma live_put_at:
  "node_at t p = Some m \<Longrightarrow> p \<noteq> [] \<or> x \<noteq> None \<Longrightarrow>
   live r (put_at t p x) =
     (live r t - live (r @ p) m) \<union> (case x of None \<Rightarrow> {} | Some y \<Rightarrow> live (r @ p) y)"
proof (induction t p x arbitrary: r rule: put_at.induct)
  case (1 t x)
  then show ?case by auto
next
  case (2 t d x)
  then have c: "child d t = Some m" by (auto split: option.splits)
  from live_set_child [OF c] show ?case by simp
next
  case (3 t d e p x)
  from 3(2) obtain c where c: "child d t = Some c" "node_at c (e # p) = Some m"
    by (auto split: option.splits)
  have IH: "live (r @ [d]) (put_at c (e # p) x) =
      (live (r @ [d]) c - live (r @ d # e # p) m) \<union>
      (case x of None \<Rightarrow> {} | Some y \<Rightarrow> live (r @ d # e # p) y)"
    using 3(1) [OF c(1) c(2), of "r @ [d]"] by (cases x) simp_all
  have sub: "live (r @ d # e # p) m \<subseteq> live (r @ [d]) c"
    using live_node_at_subset [OF c(2), of "r @ [d]"] by simp
  have csub: "live (r @ [d]) c \<subseteq> live r t" by (rule live_child_subset [OF c(1)])
  have "live r (put_at t (d # e # p) x) = live r (set_child d (Some (put_at c (e # p) x)) t)"
    using c(1) by simp
  also have "\<dots> = (live r t - live (r @ [d]) c) \<union> live (r @ [d]) (put_at c (e # p) x)"
    using live_set_child [OF c(1)] by simp
  also have "\<dots> = (live r t - live (r @ d # e # p) m) \<union>
      (case x of None \<Rightarrow> {} | Some y \<Rightarrow> live (r @ d # e # p) y)"
    unfolding IH using sub csub by auto
  finally show ?case by simp
qed

lemma live_iff_node_at:
  "h \<in> live r t \<longleftrightarrow>
   (\<exists>q m. alloc_node h = r @ q \<and> node_at t q = Some m \<and> node_type m = NODE_TYPE_OCCUPIED
      \<and> alloc_offset h = node_offset m \<and> alloc_size h = node_size m)"
proof (induction t arbitrary: r)
  case (BuddyNode ty off sz l rr)
  show ?case (is "?L \<longleftrightarrow> ?R")
  proof
    assume ?L
    then consider (self) "ty = NODE_TYPE_OCCUPIED"
        "h = \<lparr> alloc_offset = off, alloc_size = sz, alloc_node = r \<rparr>"
      | (left) c where "l = Some c" "h \<in> live (r @ [True]) c"
      | (right) c where "rr = Some c" "h \<in> live (r @ [False]) c"
      by (auto split: if_splits option.splits)
    then show ?R
    proof cases
      case self
      then have "alloc_node h = r @ []" "node_at (BuddyNode ty off sz l rr) [] = Some (BuddyNode ty off sz l rr)"
        by simp_all
      with self show ?thesis by (intro exI [of _ "[]"] exI [of _ "BuddyNode ty off sz l rr"]) simp
    next
      case left
      with BuddyNode.IH(1) [of c "r @ [True]"] obtain q m where
        "alloc_node h = (r @ [True]) @ q" "node_at c q = Some m" "node_type m = NODE_TYPE_OCCUPIED"
        "alloc_offset h = node_offset m" "alloc_size h = node_size m" by auto
      with left(1) show ?thesis
        by (intro exI [of _ "True # q"] exI [of _ m]) simp
    next
      case right
      with BuddyNode.IH(2) [of c "r @ [False]"] obtain q m where
        "alloc_node h = (r @ [False]) @ q" "node_at c q = Some m" "node_type m = NODE_TYPE_OCCUPIED"
        "alloc_offset h = node_offset m" "alloc_size h = node_size m" by auto
      with right(1) show ?thesis
        by (intro exI [of _ "False # q"] exI [of _ m]) simp
    qed
  next
    assume ?R
    then obtain q m where qm: "alloc_node h = r @ q" "node_at (BuddyNode ty off sz l rr) q = Some m"
      "node_type m = NODE_TYPE_OCCUPIED" "alloc_offset h = node_offset m"
      "alloc_size h = node_size m" by blast
    show ?L
    proof (cases q)
      case Nil
      with qm show ?thesis by (cases h) auto
    next
      case (Cons d q')
      with qm(2) obtain c where c: "child d (BuddyNode ty off sz l rr) = Some c"
        "node_at c q' = Some m" by (auto split: option.splits)
      show ?thesis
      proof (cases d)
        case True
        with c have l: "l = Some c" by simp
        have "h \<in> live (r @ [True]) c"
          using BuddyNode.IH(1) [of c "r @ [True]"] l qm c(2) Cons True by auto
        with l show ?thesis by simp
      next
        case False
        with c have rr: "rr = Some c" by simp
        have "h \<in> live (r @ [False]) c"
          using BuddyNode.IH(2) [of c "r @ [False]"] rr qm c(2) Cons False by auto
        with rr show ?thesis by simp
      qed
    qed
  qed
qed

lemma live_leaf_free:
  "wf_node m \<Longrightarrow> node_type m = NODE_TYPE_FREE \<Longrightarrow> live r m = {}"
  by (cases m) auto

lemma live_can_coalesce:
  "wf_node m \<Longrightarrow> can_coalesce m \<Longrightarrow> node_type m \<noteq> NODE_TYPE_OCCUPIED \<Longrightarrow> live r m = {}"
proof -
  assume wf: "wf_node m" and cc: "can_coalesce m" and ty: "node_type m \<noteq> NODE_TYPE_OCCUPIED"
  have "live (r @ [d]) c = {}" if "child d m = Some c" for d c
  proof -
    from that cc have "node_type c = NODE_TYPE_FREE"
      by (cases d) (auto simp: can_coalesce_def child_def)
    moreover from wf_node_child [OF wf that] have "wf_node c" by simp
    ultimately show ?thesis by (rule live_leaf_free [rotated])
  qed
  from this [of True] this [of False] ty show ?thesis
    by (subst live_Node) (auto split: option.splits)
qed

section \<open>The upward fix-up\<close>

declare node_update.simps(2) [simp del]

lemma destroy_buf_node_True [simp]: "destroy_buf_node True n = None"
  by (cases n) (simp add: Let_def)

lemma destroy_buf_node_False [simp]:
  "destroy_buf_node False (BuddyNode t off sz l r) = Some (BuddyNode t off sz None None)"
  by (simp add: Let_def option.case_eq_if)

declare destroy_buf_node.simps [simp del]

lemma destroy_at_nonroot:
  "p \<noteq> [] \<Longrightarrow> node_at t p = Some n \<Longrightarrow> destroy_at t p = put_at t p None"
  by (simp add: destroy_at_def parent_def)

lemma destroy_at_root:
  "destroy_at (BuddyNode t off sz l r) [] = BuddyNode t off sz None None"
  by (simp add: destroy_at_def parent_def)

lemma node_update_step:
  "node_at t p = Some node \<Longrightarrow>
   node_update t (Some p) =
     (case node_type node of
        NODE_TYPE_FREE \<Rightarrow>
          if p = [] then Inr t else node_update (put_at t p None) (Some (butlast p))
      | NODE_TYPE_SPLIT \<Rightarrow>
          if can_coalesce node
          then (if p = [] then Inl NullDeref else node_update (put_at t p None) (Some (butlast p)))
          else Inr t
      | NODE_TYPE_OCCUPIED \<Rightarrow> Inr t)"
proof -
  assume n: "node_at t p = Some node"
  have same: "(if last p then destroy_at t (butlast p @ [True])
               else destroy_at t (butlast p @ [False])) = put_at t p None" if "p \<noteq> []"
  proof -
    from that have "butlast p @ [last p] = p" by simp
    then have "(if last p then butlast p @ [True] else butlast p @ [False]) = p"
      by (cases "last p") simp_all
    then have "(if last p then destroy_at t (butlast p @ [True])
               else destroy_at t (butlast p @ [False])) = destroy_at t p"
      by (cases "last p") simp_all
    with destroy_at_nonroot [OF that n] show ?thesis by simp
  qed
  show ?thesis
  proof (cases "p = []")
    case True
    with n show ?thesis
      by (simp add: node_update.simps(2) parent_def split: BuddyNodeType.splits)
  next
    case False
    with n same [OF False] destroy_at_nonroot [OF False n] show ?thesis
      by (simp add: node_update.simps(2) parent_def split: BuddyNodeType.splits)
  qed
qed

lemma node_update_inv:
  "wf_node t \<Longrightarrow>
   (\<forall>t'. node_update t (Some p) = Inr t' \<longrightarrow>
      wf_node t' \<and> node_offset t' = node_offset t \<and> node_size t' = node_size t
      \<and> live r t' = live r t) \<and>
   (live r t \<noteq> {} \<longrightarrow> node_at t p \<noteq> None \<longrightarrow> (\<exists>t'. node_update t (Some p) = Inr t'))"
proof (induction p arbitrary: t rule: rev_induct)
  case Nil
  have "live r t = {}" if "node_type t = NODE_TYPE_SPLIT" "can_coalesce t"
    using live_can_coalesce [OF Nil that(2)] that(1) by simp
  then show ?case
    using node_update_step [of t "[]" t] Nil
    by (auto split: BuddyNodeType.splits if_splits)
next
  case (snoc d q)
  show ?case
  proof (cases "node_at t (q @ [d])")
    case None
    then show ?thesis by (simp add: node_update.simps(2))
  next
    case (Some m)
    let ?t1 = "put_at t (q @ [d]) None"
    from wf_node_at [OF snoc.prems Some] have wm: "wf_node m" by simp
    have wf1: "wf_node ?t1" "node_offset ?t1 = node_offset t" "node_size ?t1 = node_size t"
      using put_at_wf [OF snoc.prems Some, of None] by simp_all
    have q1: "node_at ?t1 q \<noteq> None"
      using node_at_put_at_parent [OF Some, of None] Some
      by (auto simp: node_at_snoc split: option.splits)
    have up: "node_update t (Some (q @ [d])) = node_update ?t1 (Some q)"
      and l1: "live r ?t1 = live r t"
      if "node_type m = NODE_TYPE_FREE \<or> node_type m = NODE_TYPE_SPLIT \<and> can_coalesce m"
    proof -
      from that show "node_update t (Some (q @ [d])) = node_update ?t1 (Some q)"
        using node_update_step [OF Some] by auto
      from that have "live (r @ q @ [d]) m = {}"
        using live_leaf_free [OF wm] live_can_coalesce [OF wm] by auto
      with live_put_at [OF Some, of None r] show "live r ?t1 = live r t" by simp
    qed
    show ?thesis
    proof (cases "node_type m = NODE_TYPE_FREE \<or> node_type m = NODE_TYPE_SPLIT \<and> can_coalesce m")
      case True
      from snoc.IH [OF wf1(1)] q1 wf1 up [OF True] l1 [OF True] show ?thesis by simp
    next
      case False
      then have "node_update t (Some (q @ [d])) = Inr t"
        using node_update_step [OF Some] by (auto split: BuddyNodeType.splits)
      with snoc.prems show ?thesis by simp
    qed
  qed
qed

lemma wf_occupied_leaf:
  "wf_node m \<Longrightarrow> node_type m = NODE_TYPE_OCCUPIED \<Longrightarrow>
   m = BuddyNode NODE_TYPE_OCCUPIED (node_offset m) (node_size m) None None"
  by (cases m) auto

lemma buddy_buf_free_inv:
  assumes wf: "wf_node (root buf)" and h: "h \<in> live [] (root buf)"
  shows "(\<forall>buf'. buddy_buf_free buf h = Inr buf' \<longrightarrow>
            wf_node (root buf') \<and> node_offset (root buf') = node_offset (root buf)
            \<and> node_size (root buf') = node_size (root buf)
            \<and> live [] (root buf') = live [] (root buf) - {h}) \<and>
         (live [] (root buf) \<noteq> {h} \<longrightarrow> (\<exists>buf'. buddy_buf_free buf h = Inr buf'))"
proof -
  let ?p = "alloc_node h"
  from h obtain m where m: "node_at (root buf) ?p = Some m" "node_type m = NODE_TYPE_OCCUPIED"
    "alloc_offset h = node_offset m" "alloc_size h = node_size m"
    unfolding live_iff_node_at by auto
  from wf_node_at [OF wf m(1)] have wm: "wf_node m" by simp
  note leaf = wf_occupied_leaf [OF wm m(2)]
  let ?f = "set_type NODE_TYPE_FREE m"
  let ?t1 = "put_at (root buf) ?p (Some ?f)"
  have f: "?f = BuddyNode NODE_TYPE_FREE (node_offset m) (node_size m) None None"
    by (subst leaf) simp
  have lm: "live ?p m = {h}"
    using m(3,4) by (subst leaf) simp
  have wf1: "wf_node ?t1" "node_offset ?t1 = node_offset (root buf)"
    "node_size ?t1 = node_size (root buf)"
    using put_at_wf [OF wf m(1), of "Some ?f"] by (simp_all add: f)
  have l1: "live [] ?t1 = live [] (root buf) - {h}"
    using live_put_at [OF m(1), of "Some ?f" "[]"] lm by (simp add: f)
  have n1: "node_at ?t1 ?p \<noteq> None"
    using node_at_put_at [OF m(1), of "Some ?f"] by simp
  have free: "buddy_buf_free buf h =
      (case node_update ?t1 (Some ?p) of Inl e \<Rightarrow> Inl e | Inr t \<Rightarrow> Inr (buf\<lparr> root := t \<rparr>))"
    by (simp add: buddy_buf_free_def m(1))
  note inv = node_update_inv [OF wf1(1), of ?p "[]"]
  show ?thesis
  proof (intro conjI allI impI)
    fix buf'
    assume "buddy_buf_free buf h = Inr buf'"
    then obtain t' where t': "node_update ?t1 (Some ?p) = Inr t'" "buf' = buf\<lparr> root := t' \<rparr>"
      unfolding free by (cases "node_update ?t1 (Some ?p)") auto
    from inv t'(1) have "wf_node t'" "node_offset t' = node_offset ?t1"
      "node_size t' = node_size ?t1" "live [] t' = live [] ?t1"
      by blast+
    with wf1 l1 t'(2)
    show "wf_node (root buf')" "node_offset (root buf') = node_offset (root buf)"
      "node_size (root buf') = node_size (root buf)"
      "live [] (root buf') = live [] (root buf) - {h}"
      by simp_all
  next
    assume "live [] (root buf) \<noteq> {h}"
    with h have "live [] ?t1 \<noteq> {}" unfolding l1 by blast
    with inv n1 obtain t' where "node_update ?t1 (Some ?p) = Inr t'" by blast
    then show "\<exists>buf'. buddy_buf_free buf h = Inr buf'"
      unfolding free by simp
  qed
qed

lemma reachable_inv:
  "reachable total_size buf \<Longrightarrow>
   wf_node (root buf) \<and> node_offset (root buf) = 0 \<and> node_size (root buf) = total_size"
proof (induction rule: reachable.induct)
  case reach_new
  then show ?case by (simp add: buddy_buf_new_def)
next
  case (reach_alloc buf sz buf' res)
  from alloc_wf [OF reach_alloc(2), of "root buf" "[]"] reach_alloc(3,4) show ?case
    by (auto simp: buddy_buf_alloc_def split: option.splits)
next
  case (reach_free buf h buf')
  from buddy_buf_free_inv [OF _ reach_free(2)] reach_free(3,4) show ?case by auto
qed

text \<open>
  No node of a reachable tree ends beyond the size of the buffer, so the sum
  \<open>offset + size / 2\<close> of \<^verbatim>\<open>buf_node_new\<close> stays below the largest \<^verbatim>\<open>size_t\<close> whenever
  the buffer's size does.
\<close>

lemma wf_node_at_range:
  "wf_node t \<Longrightarrow> node_at t p = Some n \<Longrightarrow>
   node_offset t \<le> node_offset n \<and> node_offset n + node_size n \<le> node_offset t + node_size t"
proof (induction p arbitrary: t)
  case Nil
  then show ?case by simp
next
  case (Cons d p)
  then obtain c where c: "child d t = Some c" "node_at c p = Some n"
    by (auto split: option.splits)
  have half: "node_size t div 2 + node_size t div 2 \<le> node_size t" by simp
  from wf_node_child [OF Cons.prems(1) c(1)] Cons.IH [OF _ c(2)] half show ?case
    by (auto split: if_splits)
qed

lemma reachable_node_range:
  "reachable total_size buf \<Longrightarrow> node_at (root buf) p = Some n \<Longrightarrow>
   node_offset n + node_size n \<le> total_size"
  using reachable_inv [of total_size buf] wf_node_at_range [of "root buf" p n] by simp

section \<open>The first allocation and its free\<close>

text \<open>
  A free of the only allocation coalesces every split node above it, up to the root; there
  the split case of \<^verbatim>\<open>node_update\<close> goes on to the parent of the root, which is \<^verbatim>\<open>NULL\<close>.
\<close>

lemma node_update_root_coalesce_faults:
  "node_type t = NODE_TYPE_SPLIT \<Longrightarrow> can_coalesce t \<Longrightarrow> node_update t (Some []) = Inl NullDeref"
  using node_update_step [of t "[]" t] by simp

lemma node_at_spine: "node_at (spine b off nsz k) (replicate k True) = Some b"
  by (induction k arbitrary: nsz) simp_all

lemma put_at_spine_Some:
  "put_at (spine b off nsz k) (replicate k True) (Some b') = spine b' off nsz k"
proof (induction k arbitrary: nsz)
  case 0
  then show ?case by simp
next
  case (Suc k)
  then show ?case by (cases k) simp_all
qed

lemma put_at_spine_None:
  "put_at (spine b off nsz (Suc k)) (replicate (Suc k) True) None =
     spine (BuddyNode NODE_TYPE_SPLIT off (nsz div 2 ^ k) None None) off nsz k"
proof (induction k arbitrary: nsz)
  case 0
  then show ?case by simp
next
  case (Suc k)
  from Suc [of "nsz div 2"] show ?case by (simp add: div_mult2_eq)
qed

lemma butlast_replicate_Suc: "butlast (replicate (Suc k) x) = replicate k x"
  by (induction k) simp_all

lemma node_update_spine_split:
  "node_update (spine (BuddyNode NODE_TYPE_SPLIT off s None None) off nsz k)
     (Some (replicate k True)) = Inl NullDeref"
proof (induction k arbitrary: s)
  case 0
  show ?case
    using node_update_step [of "BuddyNode NODE_TYPE_SPLIT off s None None" "[]"]
    by (simp add: can_coalesce_def)
next
  case (Suc k)
  let ?s = "BuddyNode NODE_TYPE_SPLIT off s None None"
  have bl: "butlast (replicate (Suc k) True) = replicate k True"
    by (rule butlast_replicate_Suc)
  have "node_update (spine ?s off nsz (Suc k)) (Some (replicate (Suc k) True))
    = node_update (put_at (spine ?s off nsz (Suc k)) (replicate (Suc k) True) None)
        (Some (butlast (replicate (Suc k) True)))"
    using node_update_step [OF node_at_spine, of ?s off nsz "Suc k"]
    by (simp add: can_coalesce_def del: spine.simps replicate.simps)
  also have "\<dots> = node_update
      (spine (BuddyNode NODE_TYPE_SPLIT off (nsz div 2 ^ k) None None) off nsz k)
      (Some (replicate k True))"
    unfolding put_at_spine_None bl ..
  also have "\<dots> = Inl NullDeref" by (rule Suc)
  finally show ?case .
qed

lemma alloc_fresh_spine:
  "1 \<le> sz \<Longrightarrow> sz \<le> nsz \<Longrightarrow>
   \<exists>k. alloc_buf_node p (BuddyNode NODE_TYPE_FREE off nsz None None) sz =
          Some (spine (BuddyNode NODE_TYPE_OCCUPIED off (nsz div 2 ^ k) None None) off nsz k,
                Some \<lparr> alloc_offset = off, alloc_size = nsz div 2 ^ k,
                       alloc_node = p @ replicate k True \<rparr>)
     \<and> (k = 0 \<longleftrightarrow> nsz div 2 < sz)"
proof (induction nsz arbitrary: p rule: less_induct)
  case (less nsz)
  show ?case
  proof (cases "sz \<le> nsz div 2")
    case True
    with less.prems have "nsz div 2 < nsz" by simp
    from less.IH [OF this less.prems(1) True, of "p @ [True]"] obtain k where k:
      "alloc_buf_node (p @ [True]) (BuddyNode NODE_TYPE_FREE off (nsz div 2) None None) sz =
         Some (spine (BuddyNode NODE_TYPE_OCCUPIED off (nsz div 2 div 2 ^ k) None None)
                 off (nsz div 2) k,
               Some \<lparr> alloc_offset = off, alloc_size = nsz div 2 div 2 ^ k,
                      alloc_node = (p @ [True]) @ replicate k True \<rparr>)"
      by blast
    have "nsz div 2 div 2 ^ k = nsz div 2 ^ Suc k" by (simp add: div_mult2_eq)
    with k True have
      "alloc_buf_node p (BuddyNode NODE_TYPE_FREE off nsz None None) sz =
         Some (spine (BuddyNode NODE_TYPE_OCCUPIED off (nsz div 2 ^ Suc k) None None) off nsz (Suc k),
               Some \<lparr> alloc_offset = off, alloc_size = nsz div 2 ^ Suc k,
                      alloc_node = p @ replicate (Suc k) True \<rparr>)"
      by (simp add: alloc_free_split)
    with True show ?thesis by (intro exI [of _ "Suc k"]) simp
  next
    case False
    with less.prems show ?thesis
      by (intro exI [of _ 0]) (simp add: alloc_free_occupy)
  qed
qed

lemma first_free_faults:
  assumes "1 \<le> sz" "sz \<le> total_size div 2"
  shows "\<exists>b h. buddy_buf_alloc (buddy_buf_new total_size) sz = Some (b, Some h)
    \<and> buddy_buf_free b h = Inl NullDeref"
proof -
  from assms have le: "sz \<le> total_size" by simp
  from alloc_fresh_spine [OF assms(1) le, of "[]" 0] assms(2) obtain k where k:
    "alloc_buf_node [] (BuddyNode NODE_TYPE_FREE 0 total_size None None) sz =
       Some (spine (BuddyNode NODE_TYPE_OCCUPIED 0 (total_size div 2 ^ k) None None) 0 total_size k,
             Some \<lparr> alloc_offset = 0, alloc_size = total_size div 2 ^ k,
                    alloc_node = [] @ replicate k True \<rparr>)"
    "k \<noteq> 0"
    by auto
  then obtain j where j: "k = Suc j" by (cases k) auto
  let ?occ = "BuddyNode NODE_TYPE_OCCUPIED 0 (total_size div 2 ^ k) None None"
  let ?free = "BuddyNode NODE_TYPE_FREE 0 (total_size div 2 ^ k) None None"
  let ?b = "\<lparr> root = spine ?occ 0 total_size k \<rparr>"
  let ?h = "\<lparr> alloc_offset = 0, alloc_size = total_size div 2 ^ k, alloc_node = replicate k True \<rparr>"
  have a: "buddy_buf_alloc (buddy_buf_new total_size) sz = Some (?b, Some ?h)"
    using k(1) by (simp add: buddy_buf_alloc_def buddy_buf_new_def)
  have bl: "butlast (replicate k True) = replicate j True"
    unfolding j by (rule butlast_replicate_Suc)
  have "node_update (spine ?free 0 total_size k) (Some (replicate k True)) =
      node_update (put_at (spine ?free 0 total_size k) (replicate k True) None)
        (Some (butlast (replicate k True)))"
    using node_update_step [OF node_at_spine, of ?free 0 total_size k] j
    by (simp del: spine.simps replicate.simps)
  also have "\<dots> = Inl NullDeref"
    unfolding bl unfolding j put_at_spine_None by (rule node_update_spine_split)
  finally have "buddy_buf_free ?b ?h = Inl NullDeref"
    by (simp add: buddy_buf_free_def node_at_spine put_at_spine_Some del: spine.simps replicate.simps)
  with a show ?thesis by blast
qed

lemma first_free_root_roundtrip:
  assumes "total_size div 2 < sz" "sz \<le> total_size"
  shows "\<exists>b h b' h'. buddy_buf_alloc (buddy_buf_new total_size) sz = Some (b, Some h)
    \<and> buddy_buf_free b h = Inr (buddy_buf_new total_size)
    \<and> buddy_buf_alloc (buddy_buf_new total_size) total_size = Some (b', Some h')
    \<and> alloc_offset h' = 0 \<and> alloc_size h' = total_size"
proof -
  from assms have pos: "0 < total_size" "\<not> sz \<le> total_size div 2"
    "\<not> total_size \<le> total_size div 2"
    by auto
  with assms(2) show ?thesis
    by (simp add: buddy_buf_alloc_def buddy_buf_new_def buddy_buf_free_def alloc_free_occupy
        node_update.simps(2) parent_def)
qed

section \<open>Two small runs, evaluated\<close>

lemmas eval_rules = buddy_buf_alloc_def buddy_buf_new_def buddy_buf_free_def alloc_rules
  node_update.simps(2) destroy_at_def destroy_buf_node.simps parent_def child_def can_coalesce_def

lemma reachable_two_allocs:
  "reachable 4
     \<lparr> root = BuddyNode NODE_TYPE_SPLIT 0 4
         (Some (BuddyNode NODE_TYPE_SPLIT 0 2
            (Some (BuddyNode NODE_TYPE_OCCUPIED 0 1 None None)) None))
         (Some (BuddyNode NODE_TYPE_OCCUPIED 2 2 None None)) \<rparr>"
proof -
  have 0: "reachable 4 (buddy_buf_new 4)" by (rule reach_new) simp
  have 1: "buddy_buf_alloc (buddy_buf_new 4) 1 =
      Some (\<lparr> root = BuddyNode NODE_TYPE_SPLIT 0 4
         (Some (BuddyNode NODE_TYPE_SPLIT 0 2
            (Some (BuddyNode NODE_TYPE_OCCUPIED 0 1 None None)) None)) None \<rparr>,
        Some \<lparr> alloc_offset = 0, alloc_size = 1, alloc_node = [True, True] \<rparr>)"
    by (simp add: eval_rules)
  have 2: "buddy_buf_alloc \<lparr> root = BuddyNode NODE_TYPE_SPLIT 0 4
         (Some (BuddyNode NODE_TYPE_SPLIT 0 2
            (Some (BuddyNode NODE_TYPE_OCCUPIED 0 1 None None)) None)) None \<rparr> 2 =
      Some (\<lparr> root = BuddyNode NODE_TYPE_SPLIT 0 4
         (Some (BuddyNode NODE_TYPE_SPLIT 0 2
            (Some (BuddyNode NODE_TYPE_OCCUPIED 0 1 None None)) None))
         (Some (BuddyNode NODE_TYPE_OCCUPIED 2 2 None None)) \<rparr>,
        Some \<lparr> alloc_offset = 2, alloc_size = 2, alloc_node = [False] \<rparr>)"
    by (simp add: eval_rules)
  from reach_alloc [OF reach_alloc [OF 0 _ 1] _ 2] show ?thesis by simp
qed

lemma free_first_of_two:
  "buddy_buf_free
     \<lparr> root = BuddyNode NODE_TYPE_SPLIT 0 4
         (Some (BuddyNode NODE_TYPE_SPLIT 0 2
            (Some (BuddyNode NODE_TYPE_OCCUPIED 0 1 None None)) None))
         (Some (BuddyNode NODE_TYPE_OCCUPIED 2 2 None None)) \<rparr>
     \<lparr> alloc_offset = 0, alloc_size = 1, alloc_node = [True, True] \<rparr>
   = Inr \<lparr> root = BuddyNode NODE_TYPE_SPLIT 0 4 None
         (Some (BuddyNode NODE_TYPE_OCCUPIED 2 2 None None)) \<rparr>"
  by (simp add: eval_rules)

lemma reachable_after_free:
  "reachable 4
     \<lparr> root = BuddyNode NODE_TYPE_SPLIT 0 4 None
         (Some (BuddyNode NODE_TYPE_OCCUPIED 2 2 None None)) \<rparr>"
  by (rule reach_free [OF reachable_two_allocs _ free_first_of_two]) simp

section \<open>The claims\<close>

text \<open>
  Claim C1 says that allocating, freeing the handle and allocating \<open>total_size\<close> always
  ends with the whole span granted at offset 0. The code does not do this when the first
  allocation is not the root itself. On the example of the header of \<^verbatim>\<open>buddy.h\<close>
  (a buffer of 1024, an allocation of 30) the allocation succeeds and the free ends in
  \<^verbatim>\<open>node_update(NULL)\<close>, a null dereference: the last allocation is never reached. The
  same happens in a buffer of 2 with an allocation of 1, and for every request of at most
  half the buffer (lemma \<open>first_free_faults\<close>); a larger request occupies the root and the
  round trip works (lemma \<open>first_free_root_roundtrip\<close>).
\<close>

theorem roundtrip_null_deref:
  "(\<exists>b h. buddy_buf_alloc (buddy_buf_new 1024) 30 = Some (b, Some h)
      \<and> alloc_offset h = 0 \<and> alloc_size h = 32
      \<and> buddy_buf_free b h = Inl NullDeref) \<and>
   buddy_buf_alloc (buddy_buf_new 2) 1 =
     Some (\<lparr> root = BuddyNode NODE_TYPE_SPLIT 0 2
                     (Some (BuddyNode NODE_TYPE_OCCUPIED 0 1 None None)) None \<rparr>,
           Some \<lparr> alloc_offset = 0, alloc_size = 1, alloc_node = [True] \<rparr>) \<and>
   buddy_buf_free
     \<lparr> root = BuddyNode NODE_TYPE_SPLIT 0 2
                (Some (BuddyNode NODE_TYPE_OCCUPIED 0 1 None None)) None \<rparr>
     \<lparr> alloc_offset = 0, alloc_size = 1, alloc_node = [True] \<rparr> = Inl NullDeref"
  by (simp add: eval_rules)

text \<open>
  At the point of the fault the root is still marked as split (\<^verbatim>\<open>destroy_buf_node\<close> does
  not touch the type of the root), and on such a root a request of the whole span fails.
\<close>

lemma roundtrip_root_stays_split:
  "destroy_at (BuddyNode NODE_TYPE_SPLIT 0 1024 None None) []
     = BuddyNode NODE_TYPE_SPLIT 0 1024 None None \<and>
   alloc_buf_node [] (BuddyNode NODE_TYPE_SPLIT 0 1024 None None) 1024
     = Some (BuddyNode NODE_TYPE_SPLIT 0 1024 None None, None)"
  by (simp add: eval_rules)

text \<open>
  Claim C2 says that the fix-up never runs on a null node, also when the node it has just
  coalesced is the root. In the code the split case calls \<^verbatim>\<open>node_update(parent)\<close> without
  testing the parent, and the parent of the root is \<^verbatim>\<open>NULL\<close>: on a split root with no
  children the fix-up faults, and so does the free of the only allocation of a buffer of 2.
\<close>

theorem node_update_root_null_deref:
  "parent [] = None \<and>
   node_update (BuddyNode NODE_TYPE_SPLIT 0 2 None None) (Some []) = Inl NullDeref \<and>
   buddy_buf_free
     \<lparr> root = BuddyNode NODE_TYPE_SPLIT 0 2
                (Some (BuddyNode NODE_TYPE_OCCUPIED 0 1 None None)) None \<rparr>
     \<lparr> alloc_offset = 0, alloc_size = 1, alloc_node = [True] \<rparr> = Inl NullDeref"
  by (simp add: eval_rules)

text \<open>
  Claim C3 says that a split node that is coalesced stays in the tree with type free. The
  code destroys the node itself with its subtree. Below, in a buffer of 4 with allocations
  of 1 and 2, the first is freed: once the freed leaf is destroyed, the fix-up visits the
  split node at the left of the root, whose children are now absent, and after the free
  there is no node at that place.
\<close>

theorem coalesce_keeps_node_counterexample:
  "buddy_buf_free
     \<lparr> root = BuddyNode NODE_TYPE_SPLIT 0 4
         (Some (BuddyNode NODE_TYPE_SPLIT 0 2
            (Some (BuddyNode NODE_TYPE_OCCUPIED 0 1 None None)) None))
         (Some (BuddyNode NODE_TYPE_OCCUPIED 2 2 None None)) \<rparr>
     \<lparr> alloc_offset = 0, alloc_size = 1, alloc_node = [True, True] \<rparr>
     = Inr \<lparr> root = BuddyNode NODE_TYPE_SPLIT 0 4 None
              (Some (BuddyNode NODE_TYPE_OCCUPIED 2 2 None None)) \<rparr> \<and>
   destroy_at (BuddyNode NODE_TYPE_SPLIT 0 4
         (Some (BuddyNode NODE_TYPE_SPLIT 0 2
            (Some (BuddyNode NODE_TYPE_FREE 0 1 None None)) None))
         (Some (BuddyNode NODE_TYPE_OCCUPIED 2 2 None None))) [True, True]
     = BuddyNode NODE_TYPE_SPLIT 0 4 (Some (BuddyNode NODE_TYPE_SPLIT 0 2 None None))
         (Some (BuddyNode NODE_TYPE_OCCUPIED 2 2 None None)) \<and>
   node_at (BuddyNode NODE_TYPE_SPLIT 0 4 (Some (BuddyNode NODE_TYPE_SPLIT 0 2 None None))
       (Some (BuddyNode NODE_TYPE_OCCUPIED 2 2 None None))) [True]
     = Some (BuddyNode NODE_TYPE_SPLIT 0 2 None None) \<and>
   can_coalesce (BuddyNode NODE_TYPE_SPLIT 0 2 None None) \<and>
   node_update (BuddyNode NODE_TYPE_SPLIT 0 4 (Some (BuddyNode NODE_TYPE_SPLIT 0 2 None None))
       (Some (BuddyNode NODE_TYPE_OCCUPIED 2 2 None None))) (Some [True])
     = Inr (BuddyNode NODE_TYPE_SPLIT 0 4 None (Some (BuddyNode NODE_TYPE_OCCUPIED 2 2 None None))) \<and>
   node_at (BuddyNode NODE_TYPE_SPLIT 0 4 None (Some (BuddyNode NODE_TYPE_OCCUPIED 2 2 None None)))
       [True] = None"
  by (simp add: eval_rules)

text \<open>
  Claim C3, amended. When the fix-up visits a split node that is not the root and whose
  children are absent or free, the node is destroyed with its subtree and the link of its
  parent to it is cleared (the parent is otherwise as it was), and the fix-up goes on at the
  parent. The type of the node is never written.
\<close>

theorem coalesce_removes_node:
  assumes n: "node_at t (q @ [d]) = Some n" "node_type n = NODE_TYPE_SPLIT" "can_coalesce n"
  shows "node_update t (Some (q @ [d])) = node_update (destroy_at t (q @ [d])) (Some q) \<and>
    node_at (destroy_at t (q @ [d])) (q @ [d]) = None \<and>
    (\<exists>m. node_at t q = Some m \<and> node_at (destroy_at t (q @ [d])) q = Some (set_child d None m))"
proof -
  have d: "destroy_at t (q @ [d]) = put_at t (q @ [d]) None"
    by (rule destroy_at_nonroot [OF _ n(1)]) simp
  from n(1) obtain m where m: "node_at t q = Some m"
    by (auto simp: node_at_snoc split: option.splits)
  have "node_update t (Some (q @ [d])) = node_update (put_at t (q @ [d]) None) (Some q)"
    using node_update_step [OF n(1)] n(2,3) by simp
  moreover have "node_at (put_at t (q @ [d]) None) (q @ [d]) = None"
    using node_at_put_at [OF n(1), of None] by simp
  moreover have "node_at (put_at t (q @ [d]) None) q = Some (set_child d None m)"
    using node_at_put_at_parent [OF n(1), of None] m by simp
  ultimately show ?thesis using m unfolding d by simp
qed

theorem coalesce_removes_node_witness:
  "node_update (BuddyNode NODE_TYPE_SPLIT 0 4 (Some (BuddyNode NODE_TYPE_SPLIT 0 2 None None))
       (Some (BuddyNode NODE_TYPE_OCCUPIED 2 2 None None))) (Some [True])
     = node_update (destroy_at (BuddyNode NODE_TYPE_SPLIT 0 4
          (Some (BuddyNode NODE_TYPE_SPLIT 0 2 None None))
          (Some (BuddyNode NODE_TYPE_OCCUPIED 2 2 None None))) [True]) (Some []) \<and>
   node_at (destroy_at (BuddyNode NODE_TYPE_SPLIT 0 4
          (Some (BuddyNode NODE_TYPE_SPLIT 0 2 None None))
          (Some (BuddyNode NODE_TYPE_OCCUPIED 2 2 None None))) [True]) [True] = None \<and>
   node_at (destroy_at (BuddyNode NODE_TYPE_SPLIT 0 4
          (Some (BuddyNode NODE_TYPE_SPLIT 0 2 None None))
          (Some (BuddyNode NODE_TYPE_OCCUPIED 2 2 None None))) [True]) []
     = Some (BuddyNode NODE_TYPE_SPLIT 0 4 None (Some (BuddyNode NODE_TYPE_OCCUPIED 2 2 None None)))"
  using coalesce_removes_node [of "BuddyNode NODE_TYPE_SPLIT 0 4
       (Some (BuddyNode NODE_TYPE_SPLIT 0 2 None None))
       (Some (BuddyNode NODE_TYPE_OCCUPIED 2 2 None None))" "[]" True
       "BuddyNode NODE_TYPE_SPLIT 0 2 None None"]
  by (simp add: can_coalesce_def)

text \<open>
  Claim C4. In a reachable state, let a split node have an occupied child, and let a live
  handle other than that child be freed. When the fix-up visits the split node it stops
  there and changes nothing; the free returns, and afterwards the node is still there,
  still split, with the same occupied child.
\<close>

theorem no_false_coalescing:
  assumes r: "reachable total_size buf" and h: "h \<in> live [] (root buf)"
    and n: "node_at (root buf) q = Some n" "node_type n = NODE_TYPE_SPLIT"
    and c: "child d n = Some c" "node_type c = NODE_TYPE_OCCUPIED"
    and ne: "alloc_node h \<noteq> q @ [d]"
  shows "node_update (root buf) (Some q) = Inr (root buf) \<and>
    (\<exists>buf' n'. buddy_buf_free buf h = Inr buf' \<and> node_at (root buf') q = Some n'
       \<and> node_type n' = NODE_TYPE_SPLIT \<and> child d n' = Some c)"
proof -
  from reachable_inv [OF r] have wf: "wf_node (root buf)" by simp
  have "\<not> can_coalesce n"
    using c by (cases d) (auto simp: can_coalesce_def child_def)
  with node_update_step [OF n(1)] n(2) have stop: "node_update (root buf) (Some q) = Inr (root buf)"
    by simp
  let ?hc = "\<lparr> alloc_offset = node_offset c, alloc_size = node_size c, alloc_node = q @ [d] \<rparr>"
  have cat: "node_at (root buf) (q @ [d]) = Some c"
    by (simp add: node_at_snoc n(1) c(1))
  have hc: "?hc \<in> live [] (root buf)"
    unfolding live_iff_node_at using cat c(2) by auto
  from ne have hne: "?hc \<noteq> h" by auto
  with hc have "live [] (root buf) \<noteq> {h}" by blast
  with buddy_buf_free_inv [OF wf h] obtain buf' where b:
    "buddy_buf_free buf h = Inr buf'" "wf_node (root buf')"
    "live [] (root buf') = live [] (root buf) - {h}"
    by blast
  from hc hne b(3) have "?hc \<in> live [] (root buf')" by simp
  then obtain m' where m': "node_at (root buf') (q @ [d]) = Some m'"
    "node_type m' = NODE_TYPE_OCCUPIED" "node_offset m' = node_offset c" "node_size m' = node_size c"
    unfolding live_iff_node_at by auto
  from wf_node_at [OF wf cat] have "wf_node c" by simp
  from wf_occupied_leaf [OF this c(2)] have ceq:
    "c = BuddyNode NODE_TYPE_OCCUPIED (node_offset c) (node_size c) None None" .
  from wf_node_at [OF b(2) m'(1)] have "wf_node m'" by simp
  from wf_occupied_leaf [OF this m'(2)] m'(3,4) ceq have "m' = c" by simp
  with m'(1) obtain n' where n': "node_at (root buf') q = Some n'" "child d n' = Some c"
    by (auto simp: node_at_snoc split: option.splits)
  from wf_node_at [OF b(2) n'(1)] have "wf_node n'" by simp
  from wf_node_child [OF this n'(2)] have "node_type n' = NODE_TYPE_SPLIT" by simp
  with stop b(1) n' show ?thesis by blast
qed


theorem no_false_coalescing_witness:
  "node_update (BuddyNode NODE_TYPE_SPLIT 0 4
         (Some (BuddyNode NODE_TYPE_SPLIT 0 2
            (Some (BuddyNode NODE_TYPE_OCCUPIED 0 1 None None)) None))
         (Some (BuddyNode NODE_TYPE_OCCUPIED 2 2 None None))) (Some [])
     = Inr (BuddyNode NODE_TYPE_SPLIT 0 4
         (Some (BuddyNode NODE_TYPE_SPLIT 0 2
            (Some (BuddyNode NODE_TYPE_OCCUPIED 0 1 None None)) None))
         (Some (BuddyNode NODE_TYPE_OCCUPIED 2 2 None None))) \<and>
   (\<exists>buf' n'. buddy_buf_free
        \<lparr> root = BuddyNode NODE_TYPE_SPLIT 0 4
           (Some (BuddyNode NODE_TYPE_SPLIT 0 2
              (Some (BuddyNode NODE_TYPE_OCCUPIED 0 1 None None)) None))
           (Some (BuddyNode NODE_TYPE_OCCUPIED 2 2 None None)) \<rparr>
        \<lparr> alloc_offset = 0, alloc_size = 1, alloc_node = [True, True] \<rparr> = Inr buf'
      \<and> node_at (root buf') [] = Some n' \<and> node_type n' = NODE_TYPE_SPLIT
      \<and> child False n' = Some (BuddyNode NODE_TYPE_OCCUPIED 2 2 None None))"
  using no_false_coalescing [OF reachable_two_allocs,
    of "\<lparr> alloc_offset = 0, alloc_size = 1, alloc_node = [True, True] \<rparr>" "[]"
       "BuddyNode NODE_TYPE_SPLIT 0 4
         (Some (BuddyNode NODE_TYPE_SPLIT 0 2
            (Some (BuddyNode NODE_TYPE_OCCUPIED 0 1 None None)) None))
         (Some (BuddyNode NODE_TYPE_OCCUPIED 2 2 None None))" False
       "BuddyNode NODE_TYPE_OCCUPIED 2 2 None None"]
  by simp

text \<open>
  Claim C5. On a fresh buffer of 1024, two allocations of 200 are granted 256 at offsets 0
  and 256. After the first is freed, an allocation of 256 is granted offset 0 again, and
  the node of the second allocation is occupied with offset 256 and size 256 throughout.
\<close>

theorem partial_coalescing_scenario:
  "\<exists>b1 h1 b2 h2 b3 b4 h3.
     buddy_buf_alloc (buddy_buf_new 1024) 200 = Some (b1, Some h1)
     \<and> alloc_offset h1 = 0 \<and> alloc_size h1 = 256
     \<and> buddy_buf_alloc b1 200 = Some (b2, Some h2)
     \<and> alloc_offset h2 = 256 \<and> alloc_size h2 = 256
     \<and> buddy_buf_free b2 h1 = Inr b3
     \<and> buddy_buf_alloc b3 256 = Some (b4, Some h3)
     \<and> alloc_offset h3 = 0 \<and> alloc_size h3 = 256
     \<and> node_at (root b2) (alloc_node h2) = Some (BuddyNode NODE_TYPE_OCCUPIED 256 256 None None)
     \<and> node_at (root b3) (alloc_node h2) = Some (BuddyNode NODE_TYPE_OCCUPIED 256 256 None None)
     \<and> node_at (root b4) (alloc_node h2) = Some (BuddyNode NODE_TYPE_OCCUPIED 256 256 None None)"
  by (simp add: eval_rules)

text \<open>
  Claim C6. On a fresh allocator of size \<open>total_size\<close> the first allocation of any size
  between 1 and \<open>total_size\<close> succeeds. Its offset is 0, hence a multiple of the granted
  size, and the granted size is the least value among \<open>total_size div 2 ^ j\<close> that is not
  below the request.
\<close>

theorem first_alloc_fit:
  "1 \<le> sz \<Longrightarrow> sz \<le> total_size \<Longrightarrow>
   \<exists>buf' a. buddy_buf_alloc (buddy_buf_new total_size) sz = Some (buf', Some a)
     \<and> alloc_offset a = 0 \<and> alloc_size a dvd alloc_offset a
     \<and> sz \<le> alloc_size a \<and> (\<exists>k. alloc_size a = total_size div 2 ^ k)
     \<and> (\<forall>j. sz \<le> total_size div 2 ^ j \<longrightarrow> alloc_size a \<le> total_size div 2 ^ j)"
proof -
  assume sz: "1 \<le> sz" "sz \<le> total_size"
  from alloc_fresh [OF sz, of "[]" 0] obtain n' a k where r:
    "alloc_buf_node [] (BuddyNode NODE_TYPE_FREE 0 total_size None None) sz = Some (n', Some a)"
    "alloc_offset a = 0" "sz \<le> alloc_size a" "alloc_size a div 2 < sz"
    "alloc_size a = total_size div 2 ^ k"
    by blast
  have least: "alloc_size a \<le> total_size div 2 ^ j" if j: "sz \<le> total_size div 2 ^ j" for j
  proof (cases "j \<le> k")
    case True
    then have "(2::nat) ^ j \<le> 2 ^ k" by simp
    then have "total_size div 2 ^ k \<le> total_size div 2 ^ j" by (simp add: div_le_mono2)
    with r(5) show ?thesis by simp
  next
    case False
    then have "Suc k \<le> j" by simp
    then have "(2::nat) ^ Suc k \<le> 2 ^ j" by (rule power_increasing) simp
    then have "total_size div 2 ^ j \<le> total_size div 2 ^ Suc k" by (simp add: div_le_mono2)
    also have "total_size div 2 ^ Suc k = alloc_size a div 2"
      unfolding r(5) by (simp add: div_mult2_eq [symmetric] mult.commute)
    finally show ?thesis using r(4) j by simp
  qed
  have "buddy_buf_alloc (buddy_buf_new total_size) sz = Some (buddy_buf_new total_size\<lparr> root := n' \<rparr>, Some a)"
    by (simp add: buddy_buf_alloc_def buddy_buf_new_def r(1))
  with r least show ?thesis by auto
qed

theorem first_alloc_fit_witness:
  "\<exists>buf' a. buddy_buf_alloc (buddy_buf_new 1024) 200 = Some (buf', Some a)
     \<and> alloc_offset a = 0 \<and> alloc_size a dvd alloc_offset a
     \<and> 200 \<le> alloc_size a \<and> (\<exists>k. alloc_size a = 1024 div 2 ^ k)
     \<and> (\<forall>j. 200 \<le> (1024::nat) div 2 ^ j \<longrightarrow> alloc_size a \<le> 1024 div 2 ^ j)"
  using first_alloc_fit [of 200 1024] by simp

text \<open>
  Claim C7. Any run of allocations (each request at least 1) on a fresh allocator, with no
  free in between, returns; the ranges of the successful allocations are non-empty, lie in
  \<open>[0, total_size)\<close> and are pairwise disjoint as half-open intervals.
\<close>

theorem alloc_seq_disjoint:
  "\<forall>s\<in>set szs. 1 \<le> s \<Longrightarrow>
   \<exists>buf' as. alloc_seq (buddy_buf_new total_size) szs = Some (buf', as)
     \<and> (\<forall>i<length as. 1 \<le> alloc_size (as ! i)
           \<and> alloc_offset (as ! i) + alloc_size (as ! i) \<le> total_size)
     \<and> (\<forall>i j. i < j \<longrightarrow> j < length as \<longrightarrow>
           {alloc_offset (as ! i) ..< alloc_offset (as ! i) + alloc_size (as ! i)} \<inter>
           {alloc_offset (as ! j) ..< alloc_offset (as ! j) + alloc_size (as ! j)} = {})"
proof -
  assume szs: "\<forall>s\<in>set szs. 1 \<le> s"
  let ?b = "buddy_buf_new total_size"
  have wf0: "wf_node (root ?b)" and l0: "live [] (root ?b) = {}"
    and o0: "node_offset (root ?b) = 0" and s0: "node_size (root ?b) = total_size"
    by (simp_all add: buddy_buf_new_def)
  from alloc_seq_inv [OF wf0 szs] l0 o0 s0 obtain buf' as where r:
    "alloc_seq ?b szs = Some (buf', as)" "wf_node (root buf')"
    "node_offset (root buf') = 0" "node_size (root buf') = total_size"
    "distinct as" "live [] (root buf') = set as" "\<forall>a\<in>set as. 1 \<le> alloc_size a"
    by auto
  have range: "1 \<le> alloc_size (as ! i) \<and> alloc_offset (as ! i) + alloc_size (as ! i) \<le> total_size"
    if "i < length as" for i
  proof -
    from that have "as ! i \<in> live [] (root buf')" by (simp add: r(6))
    from live_range [OF r(2) this] r(3,4,7) that show ?thesis by simp
  qed
  have disj: "{alloc_offset (as ! i) ..< alloc_offset (as ! i) + alloc_size (as ! i)} \<inter>
      {alloc_offset (as ! j) ..< alloc_offset (as ! j) + alloc_size (as ! j)} = {}"
    if "i < j" "j < length as" for i j
  proof -
    from that have ne: "as ! i \<noteq> as ! j"
      using r(5) by (simp add: nth_eq_iff_index_eq)
    from that have "as ! i \<in> live [] (root buf')" "as ! j \<in> live [] (root buf')"
      by (simp_all add: r(6))
    from live_disjoint [OF r(2) this ne] show ?thesis by auto
  qed
  from r(1) range disj show ?thesis by blast
qed

theorem alloc_seq_disjoint_witness:
  "\<exists>buf' as. alloc_seq (buddy_buf_new 1024) [200, 200, 600, 100] = Some (buf', as)
     \<and> (\<forall>i<length as. 1 \<le> alloc_size (as ! i)
           \<and> alloc_offset (as ! i) + alloc_size (as ! i) \<le> 1024)
     \<and> (\<forall>i j. i < j \<longrightarrow> j < length as \<longrightarrow>
           {alloc_offset (as ! i) ..< alloc_offset (as ! i) + alloc_size (as ! i)} \<inter>
           {alloc_offset (as ! j) ..< alloc_offset (as ! j) + alloc_size (as ! j)} = {})"
  using alloc_seq_disjoint [of "[200, 200, 600, 100]" 1024] by simp

text \<open>
  Claim C8. In every reachable state a node at depth \<open>length p\<close> has size
  \<open>total_size div 2 ^ length p\<close>; each of its children has half its size (rounded down), the
  left one at the node's offset and the right one half a size further, and this is what
  \<^verbatim>\<open>buf_node_new\<close> makes.
\<close>

theorem node_geometry:
  "reachable total_size buf \<Longrightarrow> node_at (root buf) p = Some n \<Longrightarrow>
   node_size n = total_size div 2 ^ length p \<and>
   (\<forall>lft c. child lft n = Some c \<longrightarrow>
      node_size c = node_size n div 2 \<and>
      node_offset c = node_offset n + (if lft then 0 else node_size n div 2)) \<and>
   (\<forall>lft. node_size (buf_node_new n lft) = node_size n div 2 \<and>
      node_offset (buf_node_new n lft) = node_offset n + (if lft then 0 else node_size n div 2))"
proof -
  assume r: "reachable total_size buf" and n: "node_at (root buf) p = Some n"
  from reachable_inv [OF r] have wf: "wf_node (root buf)" and sz: "node_size (root buf) = total_size"
    by simp_all
  from wf_node_at [OF wf n] sz have wn: "wf_node n" and s: "node_size n = total_size div 2 ^ length p"
    by simp_all
  from wf_node_child [OF wn] s show ?thesis
    by (simp add: buf_node_new_def)
qed


theorem node_geometry_witness:
  "node_size (BuddyNode NODE_TYPE_SPLIT 0 4 None (Some (BuddyNode NODE_TYPE_OCCUPIED 2 2 None None)))
     = 4 div 2 ^ length ([] :: bool list) \<and>
   child False (BuddyNode NODE_TYPE_SPLIT 0 4 None (Some (BuddyNode NODE_TYPE_OCCUPIED 2 2 None None)))
     = Some (BuddyNode NODE_TYPE_OCCUPIED 2 2 None None) \<and>
   node_size (BuddyNode NODE_TYPE_OCCUPIED 2 2 None None) = 4 div 2 \<and>
   node_offset (BuddyNode NODE_TYPE_OCCUPIED 2 2 None None) = 0 + 4 div 2 \<and>
   node_size (buf_node_new (BuddyNode NODE_TYPE_SPLIT 0 4 None
       (Some (BuddyNode NODE_TYPE_OCCUPIED 2 2 None None))) True) = 4 div 2"
  using node_geometry [OF reachable_after_free, of "[]"
      "BuddyNode NODE_TYPE_SPLIT 0 4 None (Some (BuddyNode NODE_TYPE_OCCUPIED 2 2 None None))"]
  by simp

text \<open>
  Claim C9. A failed allocation (request at least 1) leaves the tree exactly as it was, on
  every tree and so on every reachable one: no type changes and no child is created.
  The allocation output is the \<open>None\<close> of the result: nothing is written to it.
\<close>

theorem alloc_failure_unchanged:
  "1 \<le> sz \<Longrightarrow>
   (alloc_buf_node p node sz = Some (node', None) \<longrightarrow> node' = node) \<and>
   (buddy_buf_alloc buf sz = Some (buf', None) \<longrightarrow> buf' = buf)"
proof -
  assume sz: "1 \<le> sz"
  have n: "n' = n" if "alloc_buf_node q n sz = Some (n', None)" for q n n'
    using alloc_returns [OF sz, of q n] that by auto
  have "buf' = buf" if "buddy_buf_alloc buf sz = Some (buf', None)"
  proof -
    from that obtain t where "alloc_buf_node [] (root buf) sz = Some (t, None)"
      "buf' = buf\<lparr> root := t \<rparr>"
      by (auto simp: buddy_buf_alloc_def split: option.splits)
    with n [of "[]" "root buf" t] show ?thesis by simp
  qed
  with n show ?thesis by blast
qed

theorem alloc_failure_unchanged_witness:
  "\<exists>buf'. buddy_buf_alloc
       \<lparr> root = BuddyNode NODE_TYPE_SPLIT 0 4
                  (Some (BuddyNode NODE_TYPE_OCCUPIED 0 2 None None))
                  (Some (BuddyNode NODE_TYPE_SPLIT 2 2
                     (Some (BuddyNode NODE_TYPE_OCCUPIED 2 1 None None)) None)) \<rparr> 2
     = Some (buf', None)
   \<and> buf' = \<lparr> root = BuddyNode NODE_TYPE_SPLIT 0 4
                  (Some (BuddyNode NODE_TYPE_OCCUPIED 0 2 None None))
                  (Some (BuddyNode NODE_TYPE_SPLIT 2 2
                     (Some (BuddyNode NODE_TYPE_OCCUPIED 2 1 None None)) None)) \<rparr>"
proof -
  let ?b = "\<lparr> root = BuddyNode NODE_TYPE_SPLIT 0 4
                  (Some (BuddyNode NODE_TYPE_OCCUPIED 0 2 None None))
                  (Some (BuddyNode NODE_TYPE_SPLIT 2 2
                     (Some (BuddyNode NODE_TYPE_OCCUPIED 2 1 None None)) None)) \<rparr>"
  have e: "buddy_buf_alloc ?b 2 = Some (?b, None)"
    by (simp add: buddy_buf_alloc_def alloc_rules)
  have "?b = ?b" using alloc_failure_unchanged [of 2 "[]" "root ?b" "root ?b" ?b ?b] e by simp
  with e show ?thesis by simp
qed

text \<open>
  Claim C10. For a request of at least 1 the descent returns on every node. A child made
  by \<^verbatim>\<open>buf_node_new\<close> when the descent goes down (\<open>sz \<le> node_size node div 2\<close>) is
  strictly smaller than its parent, and so is every child present in a well-formed tree.
\<close>

theorem alloc_descent_total:
  "1 \<le> sz \<Longrightarrow>
   (\<exists>res. alloc_buf_node p node sz = Some res) \<and>
   (sz \<le> node_size node div 2 \<longrightarrow>
      node_size (buf_node_new node lft) < node_size node \<and>
      (wf_node node \<longrightarrow> (\<forall>c. child lft node = Some c \<longrightarrow> node_size c < node_size node)))"
proof -
  assume sz: "1 \<le> sz"
  have ret: "\<exists>res. alloc_buf_node p node sz = Some res"
    using alloc_returns [OF sz, of p node] by blast
  have "node_size node div 2 < node_size node" if "sz \<le> node_size node div 2"
    using that sz by simp
  moreover have "node_size c = node_size node div 2" if "wf_node node" "child lft node = Some c" for c
    using that by (cases node) (auto simp: child_def split: if_splits)
  ultimately show ?thesis using ret by (simp add: buf_node_new_def)
qed

theorem alloc_descent_total_witness:
  "(\<exists>res. alloc_buf_node [] (BuddyNode NODE_TYPE_SPLIT 0 8
        (Some (BuddyNode NODE_TYPE_OCCUPIED 0 4 None None)) None) 3 = Some res) \<and>
   node_size (buf_node_new (BuddyNode NODE_TYPE_SPLIT 0 8
        (Some (BuddyNode NODE_TYPE_OCCUPIED 0 4 None None)) None) False) < 8 \<and>
   child True (BuddyNode NODE_TYPE_SPLIT 0 8
        (Some (BuddyNode NODE_TYPE_OCCUPIED 0 4 None None)) None)
     = Some (BuddyNode NODE_TYPE_OCCUPIED 0 4 None None) \<and>
   node_size (BuddyNode NODE_TYPE_OCCUPIED 0 4 None None) < 8"
  using alloc_descent_total [of 3 "[]" "BuddyNode NODE_TYPE_SPLIT 0 8
        (Some (BuddyNode NODE_TYPE_OCCUPIED 0 4 None None)) None" False]
    alloc_descent_total [of 3 "[]" "BuddyNode NODE_TYPE_SPLIT 0 8
        (Some (BuddyNode NODE_TYPE_OCCUPIED 0 4 None None)) None" True]
  by (simp add: child_def)

end
